theory Spec2Isabelle
  imports Complex_Main "HOL-Library.AList"
begin

section \<open>Data model of simple\_pokebot.py\<close>

text \<open>
  The enums \<open>BotState\<close> and \<open>Direction\<close> of the source, constructor for constructor.
\<close>

datatype BotState = STOPPED | MOVING | IN_BATTLE | ATTACKING | RUNNING | TELEPORTING | HEALING

datatype Direction = UP | DOWN | LEFT | RIGHT

text \<open>
  The Python exceptions that the modelled code can raise: \<open>KeyError\<close> from a dictionary
  read at a missing key, \<open>ValueError\<close> from \<open>time.sleep\<close> with a negative argument,
  \<open>OverflowError\<close> from \<open>time.sleep\<close> with a duration that is infinite or too large and
  from the conversion to \<open>float\<close> of an \<open>int\<close> that is too large,
  \<open>GrabError\<close> for whatever \<open>ImageGrab.grab\<close> and the conversion of its result raise,
  \<open>CvError\<close> for whatever \<open>cv2.matchTemplate\<close> and \<open>cv2.minMaxLoc\<close> raise. All five
  are subclasses of \<open>Exception\<close>.
\<close>

datatype exn = KeyError | ValueError | OverflowError | GrabError | CvError

text \<open>
  A Python dictionary from ability number to PP: an association list in insertion order.
  \<open>d[k]\<close> raises \<open>KeyError\<close> at a missing key; \<open>d[k] = v\<close> overwrites in place or appends.
\<close>

type_synonym pp_dict = "(int \<times> int) list"

definition getitem :: "pp_dict \<Rightarrow> int \<Rightarrow> exn + int" where
  "getitem d k = (case map_of d k of None \<Rightarrow> Inl KeyError | Some v \<Rightarrow> Inr v)"

definition setitem :: "pp_dict \<Rightarrow> int \<Rightarrow> int \<Rightarrow> pp_dict" where
  "setitem d k v = AList.update k v d"

text \<open>
  The dataclass \<open>BotConfig\<close>. Durations and the threshold are Python floats, each
  modelled by the real number it stands for; a field holds a finite value (the sliders of
  the control surface give no other). The only arithmetic of the program on floats is the
  duration of line 258, which is rounded as doubles are (section on Python floats below).
  Python integers are unbounded.
\<close>

record BotConfig =
  time_per_space :: real
  time_to_turn :: real
  movement_delay :: real
  detection_threshold :: real
  attack_wait_time :: real
  startup_delay :: int
  selected_ability :: int
  backup_ability :: int
  use_backup :: bool
  use_abra_teleport :: bool
  max_pp :: pp_dict
  current_pp :: pp_dict

text \<open>
  \<open>BotConfig(max_pp=mp, current_pp=cp)\<close> with every other field at its default, followed
  by \<open>__post_init__\<close>; \<open>None\<close> is the default of both dictionaries. \<open>PokemonBot.__init__\<close>
  calls \<open>BotConfig()\<close>, which is \<open>BotConfig_init None None\<close>.
\<close>

definition BotConfig_init :: "pp_dict option \<Rightarrow> pp_dict option \<Rightarrow> BotConfig" where
  "BotConfig_init mp cp =
     (let m = (case mp of None \<Rightarrow> [(1, 20), (2, 20), (3, 20), (4, 20)] | Some d \<Rightarrow> d)
      in \<lparr> time_per_space = 0.20, time_to_turn = 0.12, movement_delay = 0.5,
           detection_threshold = 0.8, attack_wait_time = 11.0, startup_delay = 3,
           selected_ability = 1, backup_ability = 2, use_backup = True,
           use_abra_teleport = False,
           max_pp = m,
           current_pp = (case cp of None \<Rightarrow> m | Some d \<Rightarrow> d) \<rparr>)"

section \<open>Python floats\<close>

text \<open>
  A Python float is an IEEE 754 double. The finite doubles are the reals \<open>m * 2\<^sup>e\<close> with
  \<open>\<bar>m\<bar> < 2\<^sup>5\<^sup>3\<close> and \<open>-1074 \<le> e \<le> 971\<close>. An operation on floats is the operation on the
  reals followed by rounding to the nearest double, a tie going to the double with the
  even \<open>m\<close>.

  \<open>round_half_even q\<close> is the integer nearest to \<open>q\<close>, a tie going to the even one.
  \<open>quantum a\<close> is the exponent \<open>e\<close> of the doubles around the magnitude \<open>a\<close>: the one with
  \<open>2\<^sup>e\<^sup>+\<^sup>5\<^sup>2 \<le> a < 2\<^sup>e\<^sup>+\<^sup>5\<^sup>3\<close>, but -1074 for the smaller magnitudes (the subnormal range); it is
  searched upwards from -52 when \<open>1 \<le> a\<close> and downwards from -53 otherwise.
  \<open>magnitude a\<close> is the magnitude \<open>a\<close> rounded, and \<open>double_round x\<close> the real \<open>x\<close> rounded:
  \<open>None\<close> when the result is infinite, which it is when the magnitude rounds to \<open>2\<^sup>1\<^sup>0\<^sup>2\<^sup>4\<close> or
  more. The signs of zero and of the infinite result are not modelled, and NaN does not
  arise from the operations below on finite operands.
\<close>

definition round_half_even :: "real \<Rightarrow> int" where
  "round_half_even q =
     (let f = \<lfloor>q\<rfloor>; r = q - of_int f
      in if r < 1 / 2 then f else if 1 / 2 < r then f + 1 else if even f then f else f + 1)"

fun quantum_up :: "nat \<Rightarrow> int \<Rightarrow> real \<Rightarrow> int" where
  "quantum_up 0 e a = e"
| "quantum_up (Suc k) e a = (if a < 2 powi (e + 53) then e else quantum_up k (e + 1) a)"

fun quantum_down :: "nat \<Rightarrow> int \<Rightarrow> real \<Rightarrow> int" where
  "quantum_down 0 e a = e"
| "quantum_down (Suc k) e a = (if 2 powi (e + 52) \<le> a then e else quantum_down k (e - 1) a)"

definition quantum :: "real \<Rightarrow> int" where
  "quantum a = (if 1 \<le> a then quantum_up 1024 (- 52) a else quantum_down 1021 (- 53) a)"

definition magnitude :: "real \<Rightarrow> real" where
  "magnitude a = of_int (round_half_even (a / 2 powi quantum a)) * 2 powi quantum a"

definition double_round :: "real \<Rightarrow> real option" where
  "double_round x =
     (let y = magnitude \<bar>x\<bar>
      in if 2 powi 1024 \<le> y then None else Some (if x < 0 then - y else y))"

text \<open>
  The three operations of line 258. \<open>int_to_float n\<close> is the conversion of the \<open>int\<close>
  operand of \<open>float * int\<close>, which raises \<open>OverflowError\<close> where the rounding is infinite.
  \<open>fmul x y\<close> is \<open>x * y\<close> on finite floats. \<open>fadd x y\<close> is \<open>x + y\<close> for a finite \<open>x\<close> and a
  \<open>y\<close> that may be infinite.
\<close>

definition int_to_float :: "int \<Rightarrow> exn + real" where
  "int_to_float n =
     (case double_round (of_int n) of None \<Rightarrow> Inl OverflowError | Some x \<Rightarrow> Inr x)"

definition fmul :: "real \<Rightarrow> real \<Rightarrow> real option" where
  "fmul x y = double_round (x * y)"

definition fadd :: "real \<Rightarrow> real option \<Rightarrow> real option" where
  "fadd x y = (case y of None \<Rightarrow> None | Some v \<Rightarrow> double_round (x + v))"

text \<open>
  Whether the duration \<open>d\<close> of a \<open>time.sleep\<close> fits CPython's clock: the duration is
  multiplied by \<open>1e9\<close> in double arithmetic, and the product has to lie in the range of a
  signed 64-bit count of nanoseconds.
\<close>

definition nanoseconds_fit :: "real \<Rightarrow> bool" where
  "nanoseconds_fit d =
     (case double_round (d * 1000000000) of
        None \<Rightarrow> False
      | Some n \<Rightarrow> - (2 ^ 63) \<le> n \<and> n < 2 ^ 63)"

section \<open>BattleController.get\_ability\_to\_use\<close>

text \<open>
  The result \<open>Inr None\<close> is Python's \<open>None\<close> (run from the battle). The backup counter is
  only read when \<open>use_backup\<close> holds, as the short-circuit \<open>and\<close> of the source does.
\<close>

definition get_ability_to_use :: "BotConfig \<Rightarrow> exn + int option" where
  "get_ability_to_use c =
     (case getitem (current_pp c) (selected_ability c) of
        Inl e \<Rightarrow> Inl e
      | Inr pp \<Rightarrow>
          if pp > 0 then Inr (Some (selected_ability c))
          else if use_backup c then
            (case getitem (current_pp c) (backup_ability c) of
               Inl e \<Rightarrow> Inl e
             | Inr bp \<Rightarrow> if bp > 0 then Inr (Some (backup_ability c)) else Inr None)
          else Inr None)"

text \<open>The remaining uses of ability \<open>a\<close>, if the dictionary has a counter for it.\<close>

definition remaining_uses :: "BotConfig \<Rightarrow> int \<Rightarrow> int option" where
  "remaining_uses c a = map_of (current_pp c) a"

definition max_uses :: "BotConfig \<Rightarrow> int \<Rightarrow> int option" where
  "max_uses c a = map_of (max_pp c) a"

text \<open>Every counter of the dictionary is non-negative.\<close>

definition counters_nonneg :: "BotConfig \<Rightarrow> bool" where
  "counters_nonneg c = list_all (\<lambda>kv. 0 \<le> snd kv) (current_pp c)"


section \<open>The bot, its collaborators and its environment\<close>

text \<open>
  What the worker does that another thread or the game can observe, in order: simulated
  key input (\<open>pydirectinput.press\<close>, \<open>keyDown\<close>, \<open>keyUp\<close>), \<open>time.sleep\<close>, a screen
  capture, an assignment to \<open>self.state\<close>, and the moment the control surface calls
  \<open>stop()\<close>. The \<open>print\<close> calls of the source are not recorded.
\<close>

datatype event =
  Press string | KeyDown string | KeyUp string | Sleep real | Grab | SetState BotState | CtlStop

text \<open>
  One record for the object graph rooted at \<open>PokemonBot\<close>, the two labels of \<open>BotGUI\<close>
  that \<open>toggle_bot\<close> writes, and the environment. \<open>BattleController\<close> and
  \<open>SmartMovementController\<close> hold references to the same \<open>config\<close> and \<open>detector\<close>
  objects as the bot, so their fields appear once. The dictionary \<open>stats\<close> always has its
  three keys and is three counters.

  The environment: \<open>grab_result n\<close> is what the \<open>n\<close>-th screen capture of the run yields
  (lines 97 to 99 of the source: the capture and its conversion, or the exception they
  raise); \<open>match_template screenshot template\<close> is the \<open>max_val\<close> of lines 101 to 107
  (OpenCV's normalized cross-correlation and its maximum, or the exception they raise);
  \<open>stop_at = Some k\<close> says that the control surface calls \<open>stop()\<close> while the worker is
  in the \<open>time.sleep\<close> number \<open>k\<close> of the run, counted from 0 by \<open>sleeps\<close>; \<open>workers\<close>
  counts the threads that \<open>start\<close> has launched.
\<close>

record 'img sys =
  state :: BotState
  config :: BotConfig
  running :: bool
  movements :: int
  battles :: int
  runs :: int
  templates :: "(string \<times> 'img) list"
  pattern :: string
  current_direction :: Direction
  spaces_to_move :: int
  status_label :: string
  control_button :: string
  workers :: nat
  grab_result :: "nat \<Rightarrow> exn + 'img"
  match_template :: "'img \<Rightarrow> 'img \<Rightarrow> exn + real"
  grabs :: nat
  sleeps :: nat
  stop_at :: "nat option"
  trace :: "event list"

text \<open>
  \<open>PokemonBot.__init__\<close> (with the controllers' constructors) in an environment: \<open>tpls\<close>
  are the templates that \<open>load_templates\<close> found on disk.
\<close>

definition PokemonBot_init ::
  "(string \<times> 'img) list \<Rightarrow> (nat \<Rightarrow> exn + 'img) \<Rightarrow> ('img \<Rightarrow> 'img \<Rightarrow> exn + real)
   \<Rightarrow> nat option \<Rightarrow> 'img sys" where
  "PokemonBot_init tpls gr mt sa =
     \<lparr> state = STOPPED, config = BotConfig_init None None, running = False,
       movements = 0, battles = 0, runs = 0,
       templates = tpls,
       pattern = ''horizontal'', current_direction = LEFT, spaces_to_move = 1,
       status_label = ''Status: Stopped'', control_button = ''START BOT'',
       workers = 0,
       grab_result = gr, match_template = mt, grabs = 0, sleeps = 0, stop_at = sa,
       trace = [] \<rparr>"

definition emit :: "event \<Rightarrow> 'img sys \<Rightarrow> 'img sys" where
  "emit e s = s\<lparr>trace := trace s @ [e]\<rparr>"

definition set_state :: "BotState \<Rightarrow> 'img sys \<Rightarrow> 'img sys" where
  "set_state st s = emit (SetState st) (s\<lparr>state := st\<rparr>)"

text \<open>\<open>PokemonBot.start\<close> and \<open>PokemonBot.stop\<close>.\<close>

definition start :: "'img sys \<Rightarrow> 'img sys" where
  "start s = (set_state MOVING (s\<lparr>running := True\<rparr>))\<lparr>workers := Suc (workers s)\<rparr>"

definition stop :: "'img sys \<Rightarrow> 'img sys" where
  "stop s = set_state STOPPED (s\<lparr>running := False\<rparr>)"

text \<open>
  Statements in sequence, the first exception ending the sequence.
\<close>

fun seq :: "('s \<Rightarrow> exn + 's) list \<Rightarrow> 's \<Rightarrow> exn + 's" where
  "seq [] s = Inr s"
| "seq (a # as) s = (case a s of Inl e \<Rightarrow> Inl e | Inr s' \<Rightarrow> seq as s')"

definition ok :: "('s \<Rightarrow> 's) \<Rightarrow> 's \<Rightarrow> exn + 's" where
  "ok f s = Inr (f s)"

definition press :: "string \<Rightarrow> 'img sys \<Rightarrow> exn + 'img sys" where
  "press key s = Inr (emit (Press key) s)"

definition keyDown :: "string \<Rightarrow> 'img sys \<Rightarrow> exn + 'img sys" where
  "keyDown key s = Inr (emit (KeyDown key) s)"

definition keyUp :: "string \<Rightarrow> 'img sys \<Rightarrow> exn + 'img sys" where
  "keyUp key s = Inr (emit (KeyUp key) s)"

text \<open>
  \<open>time.sleep(d)\<close>, as CPython 3.11 and later do it: the duration is first converted to a
  count of nanoseconds, which raises \<open>OverflowError\<close> when it does not fit; after that a
  negative duration raises \<open>ValueError\<close>. (An \<open>int\<close> duration, as at line 358, is converted
  by integer arithmetic, which overflows for the same durations.) While the worker sleeps
  the control surface may call \<open>stop()\<close>.
\<close>

definition sleep :: "real \<Rightarrow> 'img sys \<Rightarrow> exn + 'img sys" where
  "sleep d s =
     (if \<not> nanoseconds_fit d then Inl OverflowError
      else if d < 0 then Inl ValueError
      else let s1 = (emit (Sleep d) s)\<lparr>sleeps := Suc (sleeps s)\<rparr>
           in Inr (if stop_at s = Some (sleeps s) then stop (emit CtlStop s1) else s1))"

section \<open>ImageDetector\<close>

text \<open>The body of the \<open>try\<close> block of \<open>detect\<close>, for a template that is loaded.\<close>

definition detect_try :: "'img \<Rightarrow> real \<Rightarrow> 'img sys \<Rightarrow> exn + bool" where
  "detect_try template threshold s =
     (case grab_result s (grabs s) of
        Inl e \<Rightarrow> Inl e
      | Inr screenshot_bgr \<Rightarrow>
          (case match_template s screenshot_bgr template of
             Inl e \<Rightarrow> Inl e
           | Inr max_val \<Rightarrow> Inr (max_val \<ge> threshold)))"

text \<open>
  \<open>detect\<close>: no capture is made for a name without a template; \<open>except Exception\<close> turns
  every exception of the \<open>try\<close> block into \<open>False\<close>.
\<close>

definition detect :: "string \<Rightarrow> real \<Rightarrow> 'img sys \<Rightarrow> exn + (bool \<times> 'img sys)" where
  "detect template_name threshold s =
     (case map_of (templates s) template_name of
        None \<Rightarrow> Inr (False, s)
      | Some template \<Rightarrow>
          (let s1 = (emit Grab s)\<lparr>grabs := Suc (grabs s)\<rparr>
           in case detect_try template threshold s of
                Inl e \<Rightarrow> Inr (False, s1)
              | Inr b \<Rightarrow> Inr (b, s1)))"

definition is_in_battle :: "real \<Rightarrow> 'img sys \<Rightarrow> exn + (bool \<times> 'img sys)" where
  "is_in_battle threshold s = detect ''hp_bar'' threshold s"

definition is_battle_menu_visible :: "real \<Rightarrow> 'img sys \<Rightarrow> exn + (bool \<times> 'img sys)" where
  "is_battle_menu_visible threshold s = detect ''battle_menu'' threshold s"

section \<open>BattleController\<close>

text \<open>The slot-specific tail of the fight script (the \<open>if\<close>/\<open>elif\<close> chain on \<open>ability\<close>).\<close>

definition ability_script :: "int \<Rightarrow> ('img sys \<Rightarrow> exn + 'img sys) list" where
  "ability_script ability =
     (if ability = 1 then [press ''z'']
      else if ability = 2 then [press ''right'', sleep 0.1, press ''z'']
      else if ability = 3 then [press ''down'', sleep 0.1, press ''z'']
      else if ability = 4 then
        [press ''down'', sleep 0.1, press ''right'', sleep 0.1, press ''z'']
      else [])"

text \<open>The statement \<open>self.config.current_pp[ability] -= 1\<close>.\<close>

definition deduct_pp :: "int \<Rightarrow> 'img sys \<Rightarrow> exn + 'img sys" where
  "deduct_pp ability s =
     (case getitem (current_pp (config s)) ability of
        Inl e \<Rightarrow> Inl e
      | Inr pp \<Rightarrow>
          Inr (s\<lparr>config := (config s)\<lparr>current_pp :=
                 setitem (current_pp (config s)) ability (pp - 1)\<rparr>\<rparr>))"

text \<open>
  The statements of \<open>select_fight_and_ability\<close> after the test of \<open>ability is None\<close>, for
  the chosen ability: open the fight menu, go to the slot, confirm, deduct the PP.
\<close>

definition fight_script :: "int \<Rightarrow> ('img sys \<Rightarrow> exn + 'img sys) list" where
  "fight_script ability =
     [press ''up'', sleep 0.1, press ''z'', sleep 0.3,
      press ''up'', sleep 0.1,
      press ''up'', sleep 0.1, press ''left'', sleep 0.1]
     @ ability_script ability
     @ [deduct_pp ability, sleep 0.3]"

text \<open>
  \<open>select_fight_and_ability(ability)\<close>; the argument \<open>None\<close> is the default of the
  parameter.
\<close>

definition select_fight_and_ability ::
  "int option \<Rightarrow> 'img sys \<Rightarrow> exn + (bool \<times> 'img sys)" where
  "select_fight_and_ability ability0 s =
     (case (case ability0 of None \<Rightarrow> get_ability_to_use (config s) | Some a \<Rightarrow> Inr (Some a)) of
        Inl e \<Rightarrow> Inl e
      | Inr None \<Rightarrow> Inr (False, s)
      | Inr (Some ability) \<Rightarrow>
          (case seq (fight_script ability) s of
             Inl e \<Rightarrow> Inl e
           | Inr s' \<Rightarrow> Inr (True, s')))"

definition select_run :: "'img sys \<Rightarrow> exn + (bool \<times> 'img sys)" where
  "select_run s =
     (case seq [press ''up'', sleep 0.1, press ''down'', sleep 0.1,
                press ''right'', sleep 0.1, press ''z'', sleep 0.3] s of
        Inl e \<Rightarrow> Inl e
      | Inr s' \<Rightarrow> Inr (True, s'))"

text \<open>
  The block under \<open>if self.detector.is_battle_menu_visible(...)\<close> in \<open>handle_battle\<close>:
  the flag says whether \<open>return "run"\<close> was executed.
\<close>

definition battle_turn :: "'img sys \<Rightarrow> exn + (bool \<times> 'img sys)" where
  "battle_turn s =
     (case select_fight_and_ability None s of
        Inl e \<Rightarrow> Inl e
      | Inr (fought, s1) \<Rightarrow>
          if \<not> fought then
            (case select_run s1 of
               Inl e \<Rightarrow> Inl e
             | Inr (fled, s2) \<Rightarrow> Inr (fled, s2))
          else Inr (False, s1))"

text \<open>
  \<open>handle_battle\<close>. The \<open>while\<close> loop has no bound in the source; the first argument
  bounds the number of its iterations, and \<open>None\<close> says that the bound was reached.
\<close>

fun handle_battle :: "nat \<Rightarrow> 'img sys \<Rightarrow> (exn + (string \<times> 'img sys)) option" where
  "handle_battle 0 s = None"
| "handle_battle (Suc n) s =
     (case is_in_battle (detection_threshold (config s)) s of
        Inl e \<Rightarrow> Some (Inl e)
      | Inr (in_battle, s1) \<Rightarrow>
          if \<not> in_battle then Some (Inr (''battle_complete'', s1))
          else
            (case is_battle_menu_visible (detection_threshold (config s1)) s1 of
               Inl e \<Rightarrow> Some (Inl e)
             | Inr (menu, s2) \<Rightarrow>
                 (case (if menu then battle_turn s2 else Inr (False, s2)) of
                    Inl e \<Rightarrow> Some (Inl e)
                  | Inr (returned, s3) \<Rightarrow>
                      if returned then Some (Inr (''run'', s3))
                      else
                        (case sleep (attack_wait_time (config s3)) s3 of
                           Inl e \<Rightarrow> Some (Inl e)
                         | Inr s4 \<Rightarrow>
                             (case is_in_battle (detection_threshold (config s4)) s4 of
                                Inl e \<Rightarrow> Some (Inl e)
                              | Inr (still, s5) \<Rightarrow>
                                  if \<not> still then Some (Inr (''battle_complete'', s5))
                                  else handle_battle n s5)))))"

section \<open>SmartMovementController\<close>

definition direction_keys :: "Direction \<Rightarrow> string" where
  "direction_keys d =
     (case d of LEFT \<Rightarrow> ''left'' | RIGHT \<Rightarrow> ''right'' | UP \<Rightarrow> ''up'' | DOWN \<Rightarrow> ''down'')"

text \<open>
  The local variables \<open>turn_time\<close> and \<open>total_time\<close> of \<open>move\<close>, as functions of the
  configuration, the stored facing, the requested direction and the number of spaces.
  Line 258 is evaluated in double arithmetic: \<open>spaces\<close> is converted to a float, the
  product is rounded, then the sum. Without a turn \<open>turn_time\<close> is the \<open>int\<close> 0, which is
  converted to \<open>0.0\<close>. The result is \<open>Inl\<close> when the conversion of \<open>spaces\<close> raises, and
  \<open>Inr None\<close> when the duration is infinite.
\<close>

definition turn_time :: "BotConfig \<Rightarrow> Direction \<Rightarrow> Direction \<Rightarrow> real" where
  "turn_time c facing direction = (if facing \<noteq> direction then time_to_turn c else 0)"

definition total_time ::
  "BotConfig \<Rightarrow> Direction \<Rightarrow> Direction \<Rightarrow> int \<Rightarrow> exn + real option" where
  "total_time c facing direction spaces =
     (case int_to_float spaces of
        Inl e \<Rightarrow> Inl e
      | Inr p \<Rightarrow> Inr (fadd (turn_time c facing direction) (fmul (time_per_space c) p)))"

text \<open>\<open>time.sleep\<close> of a float that may be infinite.\<close>

definition sleep_float :: "real option \<Rightarrow> 'img sys \<Rightarrow> exn + 'img sys" where
  "sleep_float t s = (case t of None \<Rightarrow> Inl OverflowError | Some d \<Rightarrow> sleep d s)"

definition move :: "Direction \<Rightarrow> int \<Rightarrow> 'img sys \<Rightarrow> exn + 'img sys" where
  "move direction spaces s =
     (let key = direction_keys direction;
          s1 = (if current_direction s \<noteq> direction
                then s\<lparr>current_direction := direction\<rparr> else s)
      in case total_time (config s) (current_direction s) direction spaces of
           Inl e \<Rightarrow> Inl e
         | Inr t \<Rightarrow> seq [keyDown key, sleep_float t, keyUp key, sleep 0.1] s1)"

definition move_cycle :: "'img sys \<Rightarrow> exn + 'img sys" where
  "move_cycle s =
     (if pattern s = ''horizontal'' then
        seq [\<lambda>s. move LEFT (spaces_to_move s) s, sleep 0.2,
             \<lambda>s. move RIGHT (spaces_to_move s) s, sleep 0.2] s
      else if pattern s = ''vertical'' then
        seq [\<lambda>s. move UP (spaces_to_move s) s, sleep 0.2,
             \<lambda>s. move DOWN (spaces_to_move s) s, sleep 0.2] s
      else Inr s)"

definition set_pattern :: "string \<Rightarrow> 'img sys \<Rightarrow> 'img sys" where
  "set_pattern p s =
     s\<lparr>pattern := p, current_direction := (if p = ''horizontal'' then LEFT else UP)\<rparr>"

definition set_spaces :: "int \<Rightarrow> 'img sys \<Rightarrow> 'img sys" where
  "set_spaces n s = s\<lparr>spaces_to_move := n\<rparr>"

section \<open>PokemonBot\<close>

definition teleport_to_pokecenter :: "'img sys \<Rightarrow> exn + (bool \<times> 'img sys)" where
  "teleport_to_pokecenter s =
     (case is_in_battle (detection_threshold (config s)) s of
        Inl e \<Rightarrow> Inl e
      | Inr (in_battle, s1) \<Rightarrow>
          if \<not> in_battle then
            (case seq [ok (set_state TELEPORTING), press ''9'', sleep 6] s1 of
               Inl e \<Rightarrow> Inl e
             | Inr s2 \<Rightarrow> Inr (True, s2))
          else Inr (False, s1))"

text \<open>
  The loop \<open>for ability in range(1, 5): current_pp[ability] = max_pp[ability]\<close> of
  \<open>heal_pokemon_at_center\<close> and of \<open>BotGUI.reset_pp\<close>, over the abilities still to do.
\<close>

fun reset_loop :: "int list \<Rightarrow> BotConfig \<Rightarrow> exn + BotConfig" where
  "reset_loop [] c = Inr c"
| "reset_loop (ability # rest) c =
     (case getitem (max_pp c) ability of
        Inl e \<Rightarrow> Inl e
      | Inr m \<Rightarrow> reset_loop rest (c\<lparr>current_pp := setitem (current_pp c) ability m\<rparr>))"

definition reset_all_pp :: "'img sys \<Rightarrow> exn + 'img sys" where
  "reset_all_pp s =
     (case reset_loop [1, 2, 3, 4] (config s) of
        Inl e \<Rightarrow> Inl e
      | Inr c \<Rightarrow> Inr (s\<lparr>config := c\<rparr>))"

definition heal_pokemon_at_center :: "'img sys \<Rightarrow> exn + 'img sys" where
  "heal_pokemon_at_center s =
     seq [ok (set_state HEALING),
          sleep 0.8, press ''z'', sleep 0.8, press ''z'', sleep 0.8, press ''z'',
          sleep 0.8, press ''z'', sleep 0.8, press ''z'', sleep 0.8,
          reset_all_pp,
          ok stop] s"

text \<open>
  The end of an iteration of the loop of \<open>main_loop\<close>: \<open>time.sleep(0.1)\<close>, and the
  iteration did not return.
\<close>

definition end_of_iteration :: "'img sys \<Rightarrow> exn + (bool \<times> 'img sys)" where
  "end_of_iteration s = (case sleep 0.1 s of Inl e \<Rightarrow> Inl e | Inr s' \<Rightarrow> Inr (False, s'))"

text \<open>
  Lines 374 to 387 and 394: what an iteration of \<open>main_loop\<close> does with the \<open>result\<close> of
  \<open>handle_battle\<close>. The flag of the result says whether \<open>main_loop\<close> returned.
\<close>

definition after_battle :: "string \<Rightarrow> 'img sys \<Rightarrow> exn + (bool \<times> 'img sys)" where
  "after_battle result s =
     (if result = ''run'' then
        (let s1 = set_state RUNNING s;
             s2 = s1\<lparr>runs := runs s1 + 1\<rparr>
         in if use_abra_teleport (config s2) then
              (case sleep 2 s2 of
                 Inl e \<Rightarrow> Inl e
               | Inr s3 \<Rightarrow>
                   (case teleport_to_pokecenter s3 of
                      Inl e \<Rightarrow> Inl e
                    | Inr (teleported, s4) \<Rightarrow>
                        if teleported then
                          (case seq [sleep 2, heal_pokemon_at_center] s4 of
                             Inl e \<Rightarrow> Inl e
                           | Inr s5 \<Rightarrow> Inr (True, s5))
                        else end_of_iteration (set_state MOVING s4)))
            else end_of_iteration (set_state MOVING s2))
      else end_of_iteration (set_state MOVING s))"

text \<open>\<open>any(pp > 0 for pp in self.config.current_pp.values())\<close>.\<close>

definition has_pp :: "BotConfig \<Rightarrow> bool" where
  "has_pp c = list_ex (\<lambda>pp. pp > 0) (map snd (current_pp c))"

text \<open>
  One iteration of the \<open>while self.running\<close> loop, after its test. The first argument
  bounds the loop of \<open>handle_battle\<close>.
\<close>

definition main_loop_body :: "nat \<Rightarrow> 'img sys \<Rightarrow> (exn + (bool \<times> 'img sys)) option" where
  "main_loop_body n s =
     (case is_in_battle (detection_threshold (config s)) s of
        Inl e \<Rightarrow> Some (Inl e)
      | Inr (in_battle, s1) \<Rightarrow>
          if in_battle then
            (let s2 = set_state IN_BATTLE s1;
                 s3 = s2\<lparr>battles := battles s2 + 1\<rparr>;
                 s4 = (if \<not> has_pp (config s3) then set_state RUNNING s3
                       else set_state ATTACKING s3)
             in case handle_battle n s4 of
                  None \<Rightarrow> None
                | Some (Inl e) \<Rightarrow> Some (Inl e)
                | Some (Inr (result, s5)) \<Rightarrow> Some (after_battle result s5))
          else if state s1 = MOVING then
            (case move_cycle s1 of
               Inl e \<Rightarrow> Some (Inl e)
             | Inr s2 \<Rightarrow>
                 (case sleep (movement_delay (config s2))
                         (s2\<lparr>movements := movements s2 + 1\<rparr>) of
                    Inl e \<Rightarrow> Some (Inl e)
                  | Inr s3 \<Rightarrow> Some (end_of_iteration s3)))
          else Some (end_of_iteration s1))"

text \<open>
  The loop \<open>while self.running\<close>: the first argument bounds its iterations (and those of
  each \<open>handle_battle\<close>), \<open>None\<close> says that a bound was reached.
\<close>

fun main_loop_iter :: "nat \<Rightarrow> 'img sys \<Rightarrow> (exn + 'img sys) option" where
  "main_loop_iter 0 s = None"
| "main_loop_iter (Suc n) s =
     (if \<not> running s then Some (Inr s)
      else
        (case main_loop_body (Suc n) s of
           None \<Rightarrow> None
         | Some (Inl e) \<Rightarrow> Some (Inl e)
         | Some (Inr (returned, s')) \<Rightarrow>
             if returned then Some (Inr s') else main_loop_iter n s'))"

definition main_loop :: "nat \<Rightarrow> 'img sys \<Rightarrow> (exn + 'img sys) option" where
  "main_loop n s =
     (case sleep (of_int (startup_delay (config s))) s of
        Inl e \<Rightarrow> Some (Inl e)
      | Inr s1 \<Rightarrow> main_loop_iter n s1)"

section \<open>BotGUI: the configuration surface\<close>

text \<open>
  \<open>update_pp_display\<close> reads both dictionaries at the abilities 1 to 4 and writes labels
  only: it raises \<open>KeyError\<close> or changes nothing that is modelled.
\<close>

definition update_pp_display :: "'img sys \<Rightarrow> exn + 'img sys" where
  "update_pp_display s =
     (if list_all (\<lambda>ability. map_of (current_pp (config s)) ability \<noteq> None
                            \<and> map_of (max_pp (config s)) ability \<noteq> None) [1, 2, 3, 4]
      then Inr s else Inl KeyError)"

text \<open>
  \<open>update_pp(ability)\<close>. The second argument is what \<open>int(...)\<close> makes of the text of the
  entry widget of the ability: \<open>None\<close> when it raises \<open>ValueError\<close>. The handler of
  \<open>ValueError\<close> rewrites the widget from \<open>max_pp[ability]\<close>.
\<close>

definition update_pp :: "int \<Rightarrow> int option \<Rightarrow> 'img sys \<Rightarrow> exn + 'img sys" where
  "update_pp ability parsed s =
     (case parsed of
        None \<Rightarrow>
          (case getitem (max_pp (config s)) ability of Inl e \<Rightarrow> Inl e | Inr m \<Rightarrow> Inr s)
      | Some v \<Rightarrow>
          if v > 0 then
            update_pp_display
              (s\<lparr>config := (config s)\<lparr>max_pp := setitem (max_pp (config s)) ability v,
                                        current_pp := setitem (current_pp (config s)) ability v\<rparr>\<rparr>)
          else Inr s)"

definition reset_pp :: "'img sys \<Rightarrow> exn + 'img sys" where
  "reset_pp s = seq [reset_all_pp, update_pp_display] s"

text \<open>
  \<open>toggle_bot\<close>, the handler of the start/stop button; \<open>entry ability\<close> is the parsed
  text of the entry widget of the ability, as for \<open>update_pp\<close>.
\<close>

definition toggle_bot :: "(int \<Rightarrow> int option) \<Rightarrow> 'img sys \<Rightarrow> exn + 'img sys" where
  "toggle_bot entry s =
     (if \<not> running s then
        (if map_of (templates s) ''hp_bar'' = None then
           Inr (s\<lparr>status_label := ''Load HP Bar image first!''\<rparr>)
         else
           (case seq (map (\<lambda>ability. update_pp ability (entry ability)) [1, 2, 3, 4]) s of
              Inl e \<Rightarrow> Inl e
            | Inr s1 \<Rightarrow>
                Inr ((start s1)\<lparr>control_button := ''STOP BOT'',
                                status_label := ''Status: Running''\<rparr>)))
      else
        Inr ((stop s)\<lparr>control_button := ''START BOT'', status_label := ''Status: Stopped''\<rparr>))"

section \<open>Notions used to state the properties\<close>

text \<open>
  The \<open>n\<close>-th screen capture shows the template of this name: the template is loaded,
  the capture and the matching succeed, and the score reaches the configured threshold.
\<close>

definition shows_at :: "string \<Rightarrow> nat \<Rightarrow> 'img sys \<Rightarrow> bool" where
  "shows_at name n s =
     (case map_of (templates s) name of
        None \<Rightarrow> False
      | Some template \<Rightarrow>
          (case grab_result s n of
             Inl e \<Rightarrow> False
           | Inr screenshot \<Rightarrow>
               (case match_template s screenshot template of
                  Inl e \<Rightarrow> False
                | Inr max_val \<Rightarrow> max_val \<ge> detection_threshold (config s))))"

text \<open>The lifecycle states a trace goes through, and the simulated input of a trace.\<close>

fun states_of :: "event list \<Rightarrow> BotState list" where
  "states_of [] = []"
| "states_of (SetState st # es) = st # states_of es"
| "states_of (e # es) = states_of es"

fun is_input :: "event \<Rightarrow> bool" where
  "is_input (Press k) = True"
| "is_input (KeyDown k) = True"
| "is_input (KeyUp k) = True"
| "is_input (Sleep d) = True"
| "is_input e = False"

definition inputs_of :: "event list \<Rightarrow> event list" where
  "inputs_of es = filter is_input es"

text \<open>
  The invariant of the per-ability records: the abilities 1 to 4 have both counters, and
  \<open>0 \<le> remaining_uses \<le> max_uses\<close>.
\<close>

definition pp_ok :: "BotConfig \<Rightarrow> int \<Rightarrow> bool" where
  "pp_ok c i =
     (case map_of (current_pp c) i of
        None \<Rightarrow> False
      | Some r \<Rightarrow> (case map_of (max_pp c) i of None \<Rightarrow> False | Some m \<Rightarrow> 0 \<le> r \<and> r \<le> m))"

definition pp_inv :: "BotConfig \<Rightarrow> bool" where
  "pp_inv c = list_all (pp_ok c) [1, 2, 3, 4]"

text \<open>
  One use of an ability taken off its counter, and a sequence of such single decrements.
\<close>

definition decrement :: "pp_dict \<Rightarrow> int \<Rightarrow> pp_dict" where
  "decrement d a = (case map_of d a of None \<Rightarrow> d | Some v \<Rightarrow> setitem d a (v - 1))"

definition decrements :: "pp_dict \<Rightarrow> int list \<Rightarrow> pp_dict" where
  "decrements d as = foldl decrement d as"

text \<open>
  The configuration \<open>c'\<close> is \<open>c\<close> with some single decrements applied to its counters.
\<close>

definition only_decrements :: "BotConfig \<Rightarrow> BotConfig \<Rightarrow> bool" where
  "only_decrements c c' = (\<exists>as. c' = c\<lparr>current_pp := decrements (current_pp c) as\<rparr>)"

text \<open>An action keeps the configuration.\<close>

definition keeps_config :: "('img sys \<Rightarrow> exn + 'img sys) \<Rightarrow> bool" where
  "keeps_config a = (\<forall>s s'. a s = Inr s' \<longrightarrow> config s' = config s)"

text \<open>
  An action that always succeeds, keeps the configuration and the facing, and adds exactly
  these inputs to the trace.
\<close>

definition scripted :: "('img sys \<Rightarrow> exn + 'img sys) \<Rightarrow> event list \<Rightarrow> bool" where
  "scripted a evs =
     (\<forall>s. \<exists>s'. a s = Inr s' \<and> config s' = config s
            \<and> current_direction s' = current_direction s
            \<and> inputs_of (trace s') = inputs_of (trace s) @ evs)"

text \<open>
  Two systems that differ at most in the running flag, and an action whose outcome does
  not depend on the flag: on such systems it raises the same exception or returns the
  same value, in systems that again differ at most in the flag.
\<close>

definition agree :: "'img sys \<Rightarrow> 'img sys \<Rightarrow> bool" where
  "agree s t = (\<exists>r. t = s\<lparr>running := r\<rparr>)"

definition ignores_flag :: "('img sys \<Rightarrow> exn + 'img sys) \<Rightarrow> bool" where
  "ignores_flag a = (\<forall>s t. agree s t \<longrightarrow> rel_sum (=) agree (a s) (a t))"

definition ignores_flag_val :: "('img sys \<Rightarrow> exn + ('v \<times> 'img sys)) \<Rightarrow> bool" where
  "ignores_flag_val a =
     (\<forall>s t. agree s t \<longrightarrow> rel_sum (=) (rel_prod (=) agree) (a s) (a t))"

section \<open>Example systems\<close>

text \<open>
  Images are numbered in the examples. Capture 3 is a battle screen: it matches both
  templates with score 1; every other capture matches with score 0.25.
\<close>

definition example_templates :: "(string \<times> nat) list" where
  "example_templates = [(''hp_bar'', 1), (''battle_menu'', 2)]"

definition example_match :: "nat \<Rightarrow> nat \<Rightarrow> exn + real" where
  "example_match screenshot template = Inr (if screenshot = 3 then 1 else 0.25)"

text \<open>A bot in a battle that never ends, and a bot whose screen can never be captured.\<close>

definition in_battle_forever :: "nat sys" where
  "in_battle_forever = PokemonBot_init example_templates (\<lambda>n. Inr 3) example_match None"

definition blind :: "nat sys" where
  "blind = PokemonBot_init example_templates (\<lambda>n. Inl GrabError) example_match None"

text \<open>A bot without the \<open>hp_bar\<close> template.\<close>

definition no_hp_bar :: "nat sys" where
  "no_hp_bar = PokemonBot_init [(''battle_menu'', 2)] (\<lambda>n. Inr 3) example_match None"

text \<open>
  A started bot in a battle that never ends, whose primary ability is depleted and whose
  backup is disabled; the other abilities have all their uses.
\<close>

definition primary_depleted :: "nat sys" where
  "primary_depleted =
     (start in_battle_forever)
       \<lparr>config := (BotConfig_init None (Some [(1, 0), (2, 20), (3, 20), (4, 20)]))
                    \<lparr>use_backup := False\<rparr>\<rparr>"

text \<open>The same bot with every ability depleted.\<close>

definition all_depleted :: "nat sys" where
  "all_depleted =
     (start in_battle_forever)
       \<lparr>config := (BotConfig_init None (Some [(1, 0), (2, 0), (3, 0), (4, 0)]))
                    \<lparr>use_backup := False\<rparr>\<rparr>"

text \<open>
  Two bots with the escalation enabled and every ability depleted: one still sees the
  battle at the travel check, the other sees a screen without battle.
\<close>

definition fled_in_battle :: "nat sys" where
  "fled_in_battle =
     (start in_battle_forever)
       \<lparr>config := (BotConfig_init None (Some [(1, 0), (2, 0), (3, 0), (4, 0)]))
                    \<lparr>use_abra_teleport := True\<rparr>\<rparr>"

definition fled_clear :: "nat sys" where
  "fled_clear =
     (start (PokemonBot_init example_templates (\<lambda>n. Inr 0) example_match None))
       \<lparr>config := (BotConfig_init None (Some [(1, 0), (2, 0), (3, 0), (4, 0)]))
                    \<lparr>use_abra_teleport := True\<rparr>\<rparr>"

text \<open>
  A started bot whose battle lasts two turns, and whose control surface calls \<open>stop()\<close>
  during the eighth sleep of the worker: the wait after the first attack.
\<close>

definition stopped_mid_battle :: "nat sys" where
  "stopped_mid_battle =
     start (PokemonBot_init example_templates (\<lambda>n. Inr (if n < 6 then 3 else 0))
              example_match (Some 7))"

text \<open>
  The default configuration with other timings, and a bot that has it. The timings of
  the examples are doubles.
\<close>

definition timings :: "real \<Rightarrow> real \<Rightarrow> BotConfig" where
  "timings turn tile = (BotConfig_init None None)\<lparr>time_to_turn := turn, time_per_space := tile\<rparr>"

definition walker :: "real \<Rightarrow> real \<Rightarrow> nat sys" where
  "walker turn tile = in_battle_forever\<lparr>config := timings turn tile\<rparr>"

section \<open>Rounding to a double\<close>

lemma round_half_even_of_int [simp]: "round_half_even (of_int m) = m"
  by (simp add: round_half_even_def)

lemma round_half_even_bounds:
  "\<lfloor>q\<rfloor> \<le> round_half_even q" "round_half_even q \<le> \<lfloor>q\<rfloor> + 1"
  by (simp_all add: round_half_even_def Let_def)

lemma round_half_even_mono:
  assumes "q \<le> q'"
  shows "round_half_even q \<le> round_half_even q'"
proof (cases "\<lfloor>q\<rfloor> = \<lfloor>q'\<rfloor>")
  case True
  with assms have "q - of_int \<lfloor>q\<rfloor> \<le> q' - of_int \<lfloor>q'\<rfloor>" by simp
  with True show ?thesis by (auto simp: round_half_even_def Let_def)
next
  case False
  with assms have "\<lfloor>q\<rfloor> < \<lfloor>q'\<rfloor>" using floor_mono[of q q'] by linarith
  with round_half_even_bounds(2)[of q] round_half_even_bounds(1)[of q'] show ?thesis
    by linarith
qed

lemma round_half_even_le: "q \<le> of_int n \<Longrightarrow> round_half_even q \<le> n"
  using round_half_even_mono[of q "of_int n"] by simp

lemma round_half_even_ge: "of_int n \<le> q \<Longrightarrow> n \<le> round_half_even q"
  using round_half_even_mono[of "of_int n" q] by simp

lemma two_powi_mono: "m \<le> n \<Longrightarrow> (2::real) powi m \<le> 2 powi n"
  by (rule power_int_increasing) simp_all

lemma two_powi_pos [simp]: "0 < (2::real) powi n"
  by (rule zero_less_power_int) simp

lemma two_powi_nz [simp]: "(2::real) powi n \<noteq> 0"
  using two_powi_pos[of n] by simp

lemma two_powi_Suc: "(2::real) powi (n + 1) = 2 * 2 powi n"
  by (simp add: power_int_add)

lemma quantum_up_props:
  assumes "2 powi (e + 52) \<le> a"
  shows "e \<le> quantum_up k e a \<and> quantum_up k e a \<le> e + int k
       \<and> 2 powi (quantum_up k e a + 52) \<le> a
       \<and> (quantum_up k e a < e + int k \<longrightarrow> a < 2 powi (quantum_up k e a + 53))"
  using assms
proof (induction k arbitrary: e)
  case 0
  then show ?case by simp
next
  case (Suc k)
  show ?case
  proof (cases "a < 2 powi (e + 53)")
    case True
    with Suc.prems show ?thesis by simp
  next
    case False
    then have "2 powi ((e + 1) + 52) \<le> a" by (simp add: add.commute add.left_commute)
    from Suc.IH[OF this] False show ?thesis by (simp add: add.commute add.left_commute)
  qed
qed

lemma quantum_down_props:
  assumes "a < 2 powi (e + 53)"
  shows "e - int k \<le> quantum_down k e a \<and> quantum_down k e a \<le> e
       \<and> a < 2 powi (quantum_down k e a + 53)
       \<and> (e - int k < quantum_down k e a \<longrightarrow> 2 powi (quantum_down k e a + 52) \<le> a)"
  using assms
proof (induction k arbitrary: e)
  case 0
  then show ?case by simp
next
  case (Suc k)
  show ?case
  proof (cases "2 powi (e + 52) \<le> a")
    case True
    with Suc.prems show ?thesis by simp
  next
    case False
    have eq: "(e - 1) + 53 = e + 52" by simp
    from False have "a < 2 powi ((e - 1) + 53)" unfolding eq by simp
    from Suc.IH[OF this] False show ?thesis by simp
  qed
qed

lemma quantum_props:
  "- 1074 \<le> quantum a" "quantum a \<le> 972"
  "quantum a < 972 \<Longrightarrow> a < 2 powi (quantum a + 53)"
  "- 1074 < quantum a \<Longrightarrow> 2 powi (quantum a + 52) \<le> a"
proof -
  have "- 1074 \<le> quantum a \<and> quantum a \<le> 972
      \<and> (quantum a < 972 \<longrightarrow> a < 2 powi (quantum a + 53))
      \<and> (- 1074 < quantum a \<longrightarrow> 2 powi (quantum a + 52) \<le> a)"
  proof (cases "1 \<le> a")
    case True
    then have "2 powi (- 52 + 52) \<le> a" by simp
    from quantum_up_props[OF this, of 1024] True show ?thesis
      by (simp add: quantum_def)
  next
    case False
    then have "a < 2 powi (- 53 + 53)" by simp
    from quantum_down_props[OF this, of 1021] False show ?thesis
      by (simp add: quantum_def)
  qed
  then show "- 1074 \<le> quantum a" "quantum a \<le> 972"
    "quantum a < 972 \<Longrightarrow> a < 2 powi (quantum a + 53)"
    "- 1074 < quantum a \<Longrightarrow> 2 powi (quantum a + 52) \<le> a"
    by simp_all
qed

lemma quantum_eqI:
  assumes "2 powi (e + 52) \<le> a" and "a < 2 powi (e + 53)"
    and "- 1074 \<le> e" and "e \<le> 971"
  shows "quantum a = e"
proof (rule ccontr)
  assume ne: "quantum a \<noteq> e"
  show False
  proof (cases "quantum a < e")
    case True
    with assms(4) have "quantum a < 972" by simp
    from quantum_props(3)[OF this] have "a < 2 powi (quantum a + 53)" .
    also have "\<dots> \<le> 2 powi (e + 52)" using True by (intro two_powi_mono) simp
    finally show False using assms(1) by simp
  next
    case False
    with ne have gt: "e < quantum a" by simp
    with assms(3) have "- 1074 < quantum a" by simp
    from quantum_props(4)[OF this] have "2 powi (quantum a + 52) \<le> a" .
    moreover have "2 powi (e + 53) \<le> (2::real) powi (quantum a + 52)"
      using gt by (intro two_powi_mono) simp
    ultimately show False using assms(2) by simp
  qed
qed

lemma quantum_mono:
  assumes "a \<le> b"
  shows "quantum a \<le> quantum b"
proof (rule ccontr)
  assume "\<not> quantum a \<le> quantum b"
  then have lt: "quantum b < quantum a" by simp
  with quantum_props(1)[of b] have "- 1074 < quantum a" by simp
  from quantum_props(4)[OF this] have 1: "2 powi (quantum a + 52) \<le> a" .
  from lt quantum_props(2)[of a] have "quantum b < 972" by simp
  from quantum_props(3)[OF this] have "b < 2 powi (quantum b + 53)" .
  also have "\<dots> \<le> 2 powi (quantum a + 52)" using lt by (intro two_powi_mono) simp
  finally show False using 1 assms by simp
qed

lemma magnitude_nonneg: "0 \<le> a \<Longrightarrow> 0 \<le> magnitude a"
proof -
  assume "0 \<le> a"
  then have "of_int 0 \<le> a / 2 powi quantum a" by simp
  from round_half_even_ge[OF this] show ?thesis by (simp add: magnitude_def)
qed

lemma magnitude_mono:
  assumes "0 \<le> a" and "a \<le> b"
  shows "magnitude a \<le> magnitude b"
proof (cases "quantum a = quantum b")
  case True
  have "a / 2 powi quantum b \<le> b / 2 powi quantum b"
    using assms(2) by (simp add: divide_right_mono)
  from round_half_even_mono[OF this] True show ?thesis
    by (simp add: magnitude_def mult_right_mono)
next
  case False
  with quantum_mono[OF assms(2)] have lt: "quantum a < quantum b" by simp
  with quantum_props(2)[of b] have "quantum a < 972" by simp
  from quantum_props(3)[OF this] have "a / 2 powi quantum a \<le> 2 powi 53"
    by (simp add: power_int_add pos_divide_le_eq mult.commute)
  then have "a / 2 powi quantum a \<le> of_int (2 ^ 53)" by simp
  from round_half_even_le[OF this]
  have "magnitude a \<le> of_int (2 ^ 53) * 2 powi quantum a"
    unfolding magnitude_def by (intro mult_right_mono) simp_all
  also have "\<dots> = 2 powi (quantum a + 53)" by (simp add: power_int_add)
  also have "\<dots> \<le> 2 powi (quantum b + 52)" using lt by (intro two_powi_mono) simp
  finally have 1: "magnitude a \<le> 2 powi (quantum b + 52)" .
  from lt quantum_props(1)[of a] have "- 1074 < quantum b" by simp
  from quantum_props(4)[OF this] have "of_int (2 ^ 52) \<le> b / 2 powi quantum b"
    by (simp add: power_int_add pos_le_divide_eq mult.commute)
  from round_half_even_ge[OF this]
  have "of_int (2 ^ 52) * 2 powi quantum b \<le> magnitude b"
    unfolding magnitude_def by (intro mult_right_mono) simp_all
  then have "2 powi (quantum b + 52) \<le> magnitude b" by (simp add: power_int_add)
  with 1 show ?thesis by simp
qed

lemma double_round_magnitude:
  "double_round x =
     (if 2 powi 1024 \<le> magnitude \<bar>x\<bar> then None
      else Some (if x < 0 then - magnitude \<bar>x\<bar> else magnitude \<bar>x\<bar>))"
  by (simp add: double_round_def Let_def)


text \<open>A real in \<open>[1, 1 + 2\<^sup>-\<^sup>5\<^sup>3)\<close> rounds to 1: what is added to 1 is absorbed.\<close>

lemma double_round_absorbs:
  assumes "1 \<le> x" and "x < 1 + 1 / 2 ^ 53"
  shows "double_round x = Some 1"
proof -
  have ax: "\<bar>x\<bar> = x" using assms(1) by simp
  have "x < 2" using assms(2) by (simp add: field_simps) 
  then have q: "quantum x = - 52"
    using assms(1) by (intro quantum_eqI) simp_all
  have "x / 2 powi (- 52) = x * 2 ^ 52" by (simp add: power_int_minus field_simps)
  moreover have "(2::real) ^ 52 \<le> x * 2 ^ 52" using assms(1) by simp
  moreover have "x * 2 ^ 52 < 2 ^ 52 + 1 / 2" using assms(2) by (simp add: field_simps)
  ultimately have fl: "\<lfloor>x / 2 powi (- 52)\<rfloor> = 2 ^ 52"
    and fr: "x / 2 powi (- 52) - of_int (2 ^ 52 :: int) < 1 / 2"
    by (simp_all add: floor_eq_iff)
  have "round_half_even (x / 2 powi (- 52)) = 2 ^ 52"
    using fl fr by (simp add: round_half_even_def Let_def)
  then have "magnitude x = 1"
    unfolding magnitude_def q by (simp add: power_int_minus)
  then show ?thesis using assms(1) by (simp add: double_round_magnitude ax)
qed


lemma round_half_even_below:
  "q < of_int n + 1 / 2 \<Longrightarrow> round_half_even q \<le> n"
  "q \<le> of_int n + 1 / 2 \<Longrightarrow> even n \<Longrightarrow> round_half_even q \<le> n"
proof -
  have f: "of_int \<lfloor>q\<rfloor> \<le> q" "q < of_int \<lfloor>q\<rfloor> + 1" by linarith+
  {
    assume a: "q < of_int n + 1 / 2"
    have "\<lfloor>q\<rfloor> \<le> n" using a f(1) by linarith
    then consider "\<lfloor>q\<rfloor> = n" | "\<lfloor>q\<rfloor> + 1 \<le> n" by linarith
    then show "round_half_even q \<le> n"
    proof cases
      case 1
      with a show ?thesis by (simp add: round_half_even_def Let_def)
    next
      case 2
      with round_half_even_bounds(2)[of q] show ?thesis by linarith
    qed
  }
  {
    assume a: "q \<le> of_int n + 1 / 2" and e: "even n"
    have "\<lfloor>q\<rfloor> \<le> n" using a f(1) by linarith
    then consider "\<lfloor>q\<rfloor> = n" | "\<lfloor>q\<rfloor> + 1 \<le> n" by linarith
    then show "round_half_even q \<le> n"
    proof cases
      case 1
      with a e show ?thesis by (simp add: round_half_even_def Let_def)
    next
      case 2
      with round_half_even_bounds(2)[of q] show ?thesis by linarith
    qed
  }
qed

lemma round_half_even_above:
  "of_int n + 1 / 2 < q \<Longrightarrow> n + 1 \<le> round_half_even q"
  "of_int n + 1 / 2 \<le> q \<Longrightarrow> odd n \<Longrightarrow> n + 1 \<le> round_half_even q"
proof -
  have f: "of_int \<lfloor>q\<rfloor> \<le> q" "q < of_int \<lfloor>q\<rfloor> + 1" by linarith+
  {
    assume a: "of_int n + 1 / 2 < q"
    have "n \<le> \<lfloor>q\<rfloor>" using a f(2) by linarith
    then consider "\<lfloor>q\<rfloor> = n" | "n + 1 \<le> \<lfloor>q\<rfloor>" by linarith
    then show "n + 1 \<le> round_half_even q"
    proof cases
      case 1
      with a show ?thesis by (simp add: round_half_even_def Let_def)
    next
      case 2
      with round_half_even_bounds(1)[of q] show ?thesis by linarith
    qed
  }
  {
    assume a: "of_int n + 1 / 2 \<le> q" and o: "odd n"
    have "n \<le> \<lfloor>q\<rfloor>" using a f(2) by linarith
    then consider "\<lfloor>q\<rfloor> = n" | "n + 1 \<le> \<lfloor>q\<rfloor>" by linarith
    then show "n + 1 \<le> round_half_even q"
    proof cases
      case 1
      with a o show ?thesis by (auto simp: round_half_even_def Let_def)
    next
      case 2
      with round_half_even_bounds(1)[of q] show ?thesis by linarith
    qed
  }
qed

text \<open>A real \<open>m * 2\<^sup>e\<close> with \<open>m\<close> below \<open>2\<^sup>5\<^sup>3\<close> and \<open>e\<close> from -1074 is its own rounding.\<close>

lemma magnitude_dyadic:
  assumes "a = of_int m * 2 powi e" and "0 \<le> m" and "m < 2 ^ 53" and "- 1074 \<le> e"
  shows "magnitude a = a"
proof -
  have "of_int m < (2::real) ^ 53"
    using assms(3) by (metis of_int_less_iff of_int_numeral of_int_power)
  then have hi: "a < 2 powi (e + 53)"
    unfolding assms(1) by (simp add: power_int_add mult.commute)
  have qe: "quantum a \<le> e"
  proof (rule ccontr)
    assume "\<not> quantum a \<le> e"
    then have gt: "e < quantum a" by simp
    with assms(4) have "- 1074 < quantum a" by simp
    from quantum_props(4)[OF this] have "2 powi (quantum a + 52) \<le> a" .
    moreover have "2 powi (e + 53) \<le> (2::real) powi (quantum a + 52)"
      using gt by (intro two_powi_mono) simp
    ultimately show False using hi by simp
  qed
  define k where "k = nat (e - quantum a)"
  define Q :: real where "Q = 2 powi quantum a"
  have Q: "0 < Q" by (simp add: Q_def)
  have e: "e = quantum a + int k" using qe by (simp add: k_def)
  have "(2::real) powi e = 2 powi quantum a * 2 powi int k"
    by (subst e) (simp add: power_int_add)
  then have p: "(2::real) powi e = 2 ^ k * Q" by (simp add: Q_def mult.commute)
  have aQ: "a = of_int (m * 2 ^ k) * Q" by (simp add: assms(1) p)
  then have "a / Q = of_int (m * 2 ^ k)" using Q by simp
  then have "round_half_even (a / Q) = m * 2 ^ k" by (simp only: round_half_even_of_int)
  then have "magnitude a = of_int (m * 2 ^ k) * Q"
    unfolding magnitude_def Q_def by simp
  with aQ show ?thesis by simp
qed

lemma double_round_dyadic:
  assumes "x = of_int m * 2 powi e" and "\<bar>m\<bar> < 2 ^ 53" and "- 1074 \<le> e" and "e \<le> 971"
  shows "double_round x = Some x"
proof -
  have ax: "\<bar>x\<bar> = of_int \<bar>m\<bar> * 2 powi e" using assms(1) by (simp add: abs_mult)
  have mg: "magnitude \<bar>x\<bar> = \<bar>x\<bar>"
    using ax _ assms(2,3) by (rule magnitude_dyadic) simp
  have "of_int \<bar>m\<bar> < (2::real) ^ 53"
    using assms(2) by (metis of_int_less_iff of_int_numeral of_int_power)
  then have "\<bar>x\<bar> < 2 powi (e + 53)"
    unfolding ax by (simp add: power_int_add mult.commute)
  also have "\<dots> \<le> 2 powi 1024" using assms(4) by (intro two_powi_mono) simp
  finally have "\<not> 2 powi 1024 \<le> magnitude \<bar>x\<bar>" unfolding mg by simp
  then have "double_round x = Some (if x < 0 then - magnitude \<bar>x\<bar> else magnitude \<bar>x\<bar>)"
    unfolding double_round_magnitude by (rule if_not_P)
  also have "(if x < 0 then - magnitude \<bar>x\<bar> else magnitude \<bar>x\<bar>) = x"
    unfolding mg by simp
  finally show ?thesis .
qed

lemma magnitude_power2: "- 1074 \<le> int k \<Longrightarrow> magnitude (2 ^ k) = 2 ^ k"
  by (rule magnitude_dyadic[of _ 1 "int k"]) simp_all

text \<open>Where the rounding meets \<open>2\<^sup>6\<^sup>3\<close>, the bound of a signed 64-bit count.\<close>

lemma magnitude_below_2_63:
  assumes "0 \<le> a" and "a < 2 ^ 63 - 512"
  shows "magnitude a < 2 ^ 63"
proof (cases "a < 2 ^ 62")
  case True
  then have "magnitude a \<le> magnitude (2 ^ 62)" using assms(1) by (intro magnitude_mono) simp_all
  also have "\<dots> = 2 ^ 62" by (rule magnitude_power2) simp
  finally show ?thesis by simp
next
  case False
  then have q: "quantum a = 10" using assms(2) by (intro quantum_eqI) simp_all
  have "a / 2 powi 10 < of_int (2 ^ 53 - 1) + 1 / 2" using assms(2) by (simp add: field_simps)
  from round_half_even_below(1)[OF this]
  have "of_int (round_half_even (a / 2 powi 10)) * (2::real) powi 10
          \<le> of_int (2 ^ 53 - 1) * 2 powi 10"
    by (intro mult_right_mono) (simp_all only: of_int_le_iff two_powi_pos less_imp_le)
  then show ?thesis unfolding magnitude_def q by simp
qed

lemma magnitude_from_2_63:
  assumes "2 ^ 63 - 512 \<le> a"
  shows "2 ^ 63 \<le> magnitude a"
proof (cases "a < 2 ^ 63")
  case False
  have "(2::real) ^ 63 = magnitude (2 ^ 63)" by (rule magnitude_power2[symmetric]) simp
  also have "\<dots> \<le> magnitude a" using False by (intro magnitude_mono) simp_all
  finally show ?thesis .
next
  case True
  then have q: "quantum a = 10" using assms by (intro quantum_eqI) simp_all
  have "of_int (2 ^ 53 - 1) + 1 / 2 \<le> a / 2 powi 10" using assms by (simp add: field_simps)
  from round_half_even_above(2)[OF this]
  have "of_int (2 ^ 53 - 1 + 1) * (2::real) powi 10
          \<le> of_int (round_half_even (a / 2 powi 10)) * 2 powi 10"
    by (intro mult_right_mono) (simp_all only: of_int_le_iff two_powi_pos less_imp_le, simp)
  then show ?thesis unfolding magnitude_def q by simp
qed

lemma magnitude_upto_2_63:
  assumes "0 \<le> a" and "a \<le> 2 ^ 63 + 1024"
  shows "magnitude a \<le> 2 ^ 63"
proof (cases "a \<le> 2 ^ 63")
  case True
  then have "magnitude a \<le> magnitude (2 ^ 63)" using assms(1) by (intro magnitude_mono) simp_all
  also have "\<dots> = 2 ^ 63" by (rule magnitude_power2) simp
  finally show ?thesis .
next
  case False
  then have q: "quantum a = 11" using assms(2) by (intro quantum_eqI) simp_all
  have "a / 2 powi 11 \<le> of_int (2 ^ 52) + 1 / 2" using assms(2) by (simp add: field_simps)
  from round_half_even_below(2)[OF this]
  have "of_int (round_half_even (a / 2 powi 11)) * (2::real) powi 11
          \<le> of_int (2 ^ 52) * 2 powi 11"
    by (intro mult_right_mono) (simp_all only: of_int_le_iff two_powi_pos less_imp_le, simp)
  then show ?thesis unfolding magnitude_def q by simp
qed

lemma magnitude_above_2_63:
  assumes "2 ^ 63 + 1024 < a"
  shows "2 ^ 63 < magnitude a"
proof (cases "a < 2 ^ 64")
  case False
  have "(2::real) ^ 63 < 2 ^ 64" by simp
  also have "\<dots> = magnitude (2 ^ 64)" by (rule magnitude_power2[symmetric]) simp
  also have "\<dots> \<le> magnitude a" using False by (intro magnitude_mono) simp_all
  finally show ?thesis .
next
  case True
  then have q: "quantum a = 11" using assms by (intro quantum_eqI) simp_all
  have "of_int (2 ^ 52) + 1 / 2 < a / 2 powi 11" using assms by (simp add: field_simps)
  from round_half_even_above(1)[OF this]
  have "of_int (2 ^ 52 + 1) * (2::real) powi 11
          \<le> of_int (round_half_even (a / 2 powi 11)) * 2 powi 11"
    by (intro mult_right_mono) (simp_all only: of_int_le_iff two_powi_pos less_imp_le)
  then show ?thesis unfolding magnitude_def q by simp
qed

lemma double_round_fits:
  "(case double_round x of None \<Rightarrow> False | Some n \<Rightarrow> - (2 ^ 63) \<le> n \<and> n < 2 ^ 63)
     \<longleftrightarrow> - (2 ^ 63) - 1024 \<le> x \<and> x < 2 ^ 63 - 512"
proof (cases "x < 0")
  case True
  then have a: "0 \<le> \<bar>x\<bar>" "\<bar>x\<bar> = - x" by simp_all
  have m: "0 \<le> magnitude \<bar>x\<bar>" by (simp add: magnitude_nonneg)
  show ?thesis
  proof (cases "\<bar>x\<bar> \<le> 2 ^ 63 + 1024")
    case le: True
    from magnitude_upto_2_63[OF a(1) le] have "magnitude \<bar>x\<bar> \<le> 2 ^ 63" .
    moreover from this have "\<not> 2 powi 1024 \<le> magnitude \<bar>x\<bar>" by simp
    ultimately show ?thesis using True le m
      by (simp add: double_round_magnitude a(2))
  next
    case gt: False
    then have "2 ^ 63 + 1024 < \<bar>x\<bar>" by simp
    from magnitude_above_2_63[OF this] have "2 ^ 63 < magnitude \<bar>x\<bar>" .
    then show ?thesis using True gt
      by (simp add: double_round_magnitude a(2))
  qed
next
  case False
  then have a: "0 \<le> \<bar>x\<bar>" "\<bar>x\<bar> = x" by simp_all
  have m: "0 \<le> magnitude \<bar>x\<bar>" by (simp add: magnitude_nonneg)
  show ?thesis
  proof (cases "\<bar>x\<bar> < 2 ^ 63 - 512")
    case lt: True
    from magnitude_below_2_63[OF a(1) lt] have "magnitude \<bar>x\<bar> < 2 ^ 63" .
    moreover from this have "\<not> 2 powi 1024 \<le> magnitude \<bar>x\<bar>" by simp
    ultimately show ?thesis using False lt m
      by (simp add: double_round_magnitude a(2))
  next
    case ge: False
    then have "2 ^ 63 - 512 \<le> \<bar>x\<bar>" by simp
    from magnitude_from_2_63[OF this] have "2 ^ 63 \<le> magnitude \<bar>x\<bar>" .
    then show ?thesis using False ge
      by (simp add: double_round_magnitude a(2))
  qed
qed

lemma nanoseconds_fit_iff [simp, code]:
  "nanoseconds_fit d \<longleftrightarrow>
     - (2 ^ 63) - 1024 \<le> d * 1000000000 \<and> d * 1000000000 < 2 ^ 63 - 512"
  unfolding nanoseconds_fit_def by (rule double_round_fits)

lemma double_round_overflow:
  assumes "2 powi 1024 \<le> \<bar>x\<bar>"
  shows "double_round x = None"
proof -
  have "(2::real) powi 1024 = magnitude (2 powi 1024)"
    by (rule magnitude_dyadic[of _ 1 1024, symmetric]) simp_all
  also have "\<dots> \<le> magnitude \<bar>x\<bar>" using assms by (intro magnitude_mono) simp_all
  finally show ?thesis by (simp only: double_round_magnitude if_True)
qed



section \<open>The arithmetic of line 258\<close>

lemma int_to_float_exact: "\<bar>n\<bar> < 2 ^ 53 \<Longrightarrow> int_to_float n = Inr (of_int n)"
proof -
  assume "\<bar>n\<bar> < 2 ^ 53"
  then have "double_round (of_int n) = Some (of_int n)"
    by (intro double_round_dyadic[of _ n 0]) simp_all
  then show ?thesis by (simp add: int_to_float_def)
qed





section \<open>Frame lemmas\<close>

lemma seq_append:
  "seq (xs @ ys) s = (case seq xs s of Inl e \<Rightarrow> Inl e | Inr s' \<Rightarrow> seq ys s')"
  by (induction xs arbitrary: s) (auto split: sum.splits)

lemma keeps_configD: "keeps_config a \<Longrightarrow> a s = Inr s' \<Longrightarrow> config s' = config s"
  by (simp add: keeps_config_def)

lemma seq_keeps_config:
  "list_all keeps_config as \<Longrightarrow> keeps_config (seq as)"
proof (induction as)
  case Nil
  then show ?case by (simp add: keeps_config_def)
next
  case (Cons a as)
  then have a: "keeps_config a" and as: "keeps_config (seq as)" by simp_all
  show ?case
    unfolding keeps_config_def
  proof (intro allI impI)
    fix s s' assume "seq (a # as) s = Inr s'"
    then obtain s1 where "a s = Inr s1" "seq as s1 = Inr s'"
      by (auto split: sum.splits)
    then show "config s' = config s"
      using keeps_configD[OF a] keeps_configD[OF as] by metis
  qed
qed

lemma config_emit [simp]: "config (emit e s) = config s"
  by (simp add: emit_def)

lemma config_set_state [simp]: "config (set_state st s) = config s"
  by (simp add: set_state_def)

lemma config_stop [simp]: "config (stop s) = config s"
  by (simp add: stop_def)

lemma config_start [simp]: "config (start s) = config s"
  by (simp add: start_def)

lemma keeps_config_press [simp]: "keeps_config (press k)"
  by (auto simp: keeps_config_def press_def)

lemma keeps_config_keyDown [simp]: "keeps_config (keyDown k)"
  by (auto simp: keeps_config_def keyDown_def)

lemma keeps_config_keyUp [simp]: "keeps_config (keyUp k)"
  by (auto simp: keeps_config_def keyUp_def)

lemma keeps_config_sleep [simp]: "keeps_config (sleep d)"
  by (auto simp: keeps_config_def sleep_def Let_def split: if_splits)

lemma keeps_config_ok_set_state [simp]: "keeps_config (ok (set_state st))"
  by (auto simp: keeps_config_def ok_def)

lemma keeps_config_ok_stop [simp]: "keeps_config (ok stop)"
  by (auto simp: keeps_config_def ok_def)

lemma keeps_config_ability_script [simp]: "list_all keeps_config (ability_script a)"
  by (simp add: ability_script_def)

lemma detect_config: "detect name thr s = Inr (b, s') \<Longrightarrow> config s' = config s"
  by (auto simp: detect_def Let_def split: option.splits sum.splits)

lemma is_in_battle_config: "is_in_battle thr s = Inr (b, s') \<Longrightarrow> config s' = config s"
  by (simp add: is_in_battle_def detect_config)

lemma is_battle_menu_visible_config:
  "is_battle_menu_visible thr s = Inr (b, s') \<Longrightarrow> config s' = config s"
  by (simp add: is_battle_menu_visible_def detect_config)

lemma sleep_config: "sleep d s = Inr s' \<Longrightarrow> config s' = config s"
  using keeps_config_sleep by (rule keeps_configD)

lemma seq_config: "seq as s = Inr s' \<Longrightarrow> list_all keeps_config as \<Longrightarrow> config s' = config s"
  using seq_keeps_config keeps_configD by blast

lemma select_run_config: "select_run s = Inr (b, s') \<Longrightarrow> config s' = config s"
  by (auto simp: select_run_def simp del: seq.simps split: sum.splits dest!: seq_config)

lemma keeps_config_sleep_float [simp]: "keeps_config (sleep_float t)"
  using keeps_config_sleep
  by (cases t) (simp_all add: keeps_config_def sleep_float_def)

lemma move_config: "move d n s = Inr s' \<Longrightarrow> config s' = config s"
  by (auto simp: move_def Let_def simp del: seq.simps split: if_splits sum.splits
      dest!: seq_config)

lemma keeps_config_move [simp]: "keeps_config (\<lambda>s. move d (f s) s)"
  by (auto simp: keeps_config_def dest: move_config)

lemma move_cycle_config: "move_cycle s = Inr s' \<Longrightarrow> config s' = config s"
  by (auto simp: move_cycle_def simp del: seq.simps split: if_splits dest!: seq_config)

lemma teleport_config: "teleport_to_pokecenter s = Inr (b, s') \<Longrightarrow> config s' = config s"
  by (auto simp: teleport_to_pokecenter_def simp del: seq.simps split: sum.splits if_splits
      dest!: is_in_battle_config seq_config)

section \<open>Ability selection\<close>

lemma counters_nonneg_lookup:
  assumes "counters_nonneg c" and "map_of (current_pp c) k = Some v"
  shows "0 \<le> v"
proof -
  from assms(2) have "(k, v) \<in> set (current_pp c)" by (rule map_of_SomeD)
  with assms(1) show ?thesis by (auto simp: counters_nonneg_def list_all_iff)
qed

text \<open>
  Claim C1. For every configuration whose counters are non-negative, the ability that
  \<open>get_ability_to_use\<close> returns never has zero remaining uses, and it returns \<open>None\<close>
  (flee) exactly when the primary ability has zero remaining uses and the backup is
  disabled or has zero remaining uses.
\<close>

theorem get_ability_to_use_correct:
  assumes "counters_nonneg c"
  shows "(get_ability_to_use c = Inr (Some a) \<longrightarrow> remaining_uses c a \<noteq> Some 0)
       \<and> (get_ability_to_use c = Inr None \<longleftrightarrow>
            remaining_uses c (selected_ability c) = Some 0
            \<and> (\<not> use_backup c \<or> remaining_uses c (backup_ability c) = Some 0))"
proof -
  have nn: "\<And>k v. map_of (current_pp c) k = Some v \<Longrightarrow> 0 \<le> v"
    using assms by (rule counters_nonneg_lookup)
  show ?thesis
  proof (cases "map_of (current_pp c) (selected_ability c)")
    case None
    then show ?thesis
      by (simp add: get_ability_to_use_def getitem_def remaining_uses_def)
  next
    case (Some pp)
    note prim = Some
    have pp0: "0 \<le> pp" using nn prim by blast
    show ?thesis
    proof (cases "map_of (current_pp c) (backup_ability c)")
      case None
      with prim pp0 show ?thesis
        by (auto simp: get_ability_to_use_def getitem_def remaining_uses_def)
    next
      case (Some bp)
      have "0 \<le> bp" using nn Some by blast
      with prim pp0 Some show ?thesis
        by (auto simp: get_ability_to_use_def getitem_def remaining_uses_def)
    qed
  qed
qed

theorem get_ability_to_use_correct_witness:
  "counters_nonneg (BotConfig_init None (Some [(1, 0), (2, 3), (3, 20), (4, 20)]))
   \<and> get_ability_to_use (BotConfig_init None (Some [(1, 0), (2, 3), (3, 20), (4, 20)]))
       = Inr (Some 2)
   \<and> remaining_uses (BotConfig_init None (Some [(1, 0), (2, 3), (3, 20), (4, 20)])) 2 \<noteq> Some 0"
  using get_ability_to_use_correct
    [of "BotConfig_init None (Some [(1, 0), (2, 3), (3, 20), (4, 20)])" 2]
  by (simp add: counters_nonneg_def BotConfig_init_def get_ability_to_use_def getitem_def
      remaining_uses_def)

section \<open>Scripts\<close>

lemma inputs_of_append [simp]: "inputs_of (xs @ ys) = inputs_of xs @ inputs_of ys"
  by (simp add: inputs_of_def)

lemma inputs_of_simps [simp]:
  "inputs_of [] = []"
  "inputs_of (Press k # es) = Press k # inputs_of es"
  "inputs_of (KeyDown k # es) = KeyDown k # inputs_of es"
  "inputs_of (KeyUp k # es) = KeyUp k # inputs_of es"
  "inputs_of (Sleep d # es) = Sleep d # inputs_of es"
  "inputs_of (Grab # es) = inputs_of es"
  "inputs_of (SetState st # es) = inputs_of es"
  "inputs_of (CtlStop # es) = inputs_of es"
  by (simp_all add: inputs_of_def)

lemma scripted_press [simp]: "scripted (press k) [Press k]"
  by (simp add: scripted_def press_def emit_def)



lemma scripted_sleep [simp]:
  "0 \<le> d \<Longrightarrow> nanoseconds_fit d \<Longrightarrow> scripted (sleep d) [Sleep d]"
  by (simp add: scripted_def sleep_def emit_def Let_def stop_def set_state_def)

lemma scripted_seq_Nil [simp]: "scripted (seq []) []"
  by (simp add: scripted_def)

lemma scripted_seq_Cons:
  assumes "scripted a e" and "scripted (seq as) es"
  shows "scripted (seq (a # as)) (e @ es)"
  unfolding scripted_def
proof
  fix s
  from assms(1) obtain s1 where 1: "a s = Inr s1" "config s1 = config s"
    "current_direction s1 = current_direction s"
    "inputs_of (trace s1) = inputs_of (trace s) @ e"
    unfolding scripted_def by blast
  from assms(2) obtain s2 where 2: "seq as s1 = Inr s2" "config s2 = config s1"
    "current_direction s2 = current_direction s1"
    "inputs_of (trace s2) = inputs_of (trace s1) @ es"
    unfolding scripted_def by blast
  from 1 2 show "\<exists>s'. seq (a # as) s = Inr s' \<and> config s' = config s
            \<and> current_direction s' = current_direction s
            \<and> inputs_of (trace s') = inputs_of (trace s) @ e @ es"
    by simp
qed

lemma scripted_seq_append:
  assumes "scripted (seq as) e" and "scripted (seq bs) es"
  shows "scripted (seq (as @ bs)) (e @ es)"
  unfolding scripted_def
proof
  fix s
  from assms(1) obtain s1 where 1: "seq as s = Inr s1" "config s1 = config s"
    "current_direction s1 = current_direction s"
    "inputs_of (trace s1) = inputs_of (trace s) @ e"
    unfolding scripted_def by blast
  from assms(2) obtain s2 where 2: "seq bs s1 = Inr s2" "config s2 = config s1"
    "current_direction s2 = current_direction s1"
    "inputs_of (trace s2) = inputs_of (trace s1) @ es"
    unfolding scripted_def by blast
  from 1 2 show "\<exists>s'. seq (as @ bs) s = Inr s' \<and> config s' = config s
            \<and> current_direction s' = current_direction s
            \<and> inputs_of (trace s') = inputs_of (trace s) @ e @ es"
    by (simp add: seq_append)
qed



lemma seq_raises_at_second:
  "a s = Inr s1 \<Longrightarrow> b s1 = Inl e \<Longrightarrow> seq (a # b # rest) s = Inl e"
  by simp

section \<open>Detection\<close>

text \<open>
  Claim C3. \<open>detect\<close> never raises. It returns \<open>False\<close> for a name without a loaded
  template and when the screen capture raises; when the template is loaded and the capture
  and the matching succeed, it returns whether the maximum score reaches the threshold
  (and \<open>False\<close> when the matching itself raises).
\<close>

theorem detect_fails_closed:
  "(\<exists>b s'. detect name threshold s = Inr (b, s'))
   \<and> (map_of (templates s) name = None \<longrightarrow> detect name threshold s = Inr (False, s))
   \<and> (\<forall>e. grab_result s (grabs s) = Inl e \<longrightarrow>
          (\<exists>s'. detect name threshold s = Inr (False, s')))
   \<and> (\<forall>template screenshot max_val.
         map_of (templates s) name = Some template
         \<and> grab_result s (grabs s) = Inr screenshot
         \<and> match_template s screenshot template = Inr max_val
         \<longrightarrow> (\<exists>s'. detect name threshold s = Inr (max_val \<ge> threshold, s')))
   \<and> (\<forall>template screenshot e.
         map_of (templates s) name = Some template
         \<and> grab_result s (grabs s) = Inr screenshot
         \<and> match_template s screenshot template = Inl e
         \<longrightarrow> (\<exists>s'. detect name threshold s = Inr (False, s')))"
  by (auto simp: detect_def detect_try_def Let_def split: option.splits sum.splits)

theorem detect_fails_closed_witness:
  "detect ''hp_bar'' 0.8 no_hp_bar = Inr (False, no_hp_bar)
   \<and> (\<exists>s'. detect ''hp_bar'' 0.8 blind = Inr (False, s'))
   \<and> (\<exists>s'. detect ''hp_bar'' 0.8 in_battle_forever = Inr ((1::real) \<ge> 0.8, s'))"
proof -
  have 1: "map_of (templates no_hp_bar) ''hp_bar'' = None"
    by (simp add: no_hp_bar_def PokemonBot_init_def)
  have 2: "grab_result blind (grabs blind) = Inl GrabError"
    by (simp add: blind_def PokemonBot_init_def)
  have 3: "map_of (templates in_battle_forever) ''hp_bar'' = Some 1
      \<and> grab_result in_battle_forever (grabs in_battle_forever) = Inr 3
      \<and> match_template in_battle_forever 3 1 = Inr 1"
    by (simp add: in_battle_forever_def PokemonBot_init_def example_templates_def
        example_match_def)
  from 1 2 3 show ?thesis
    using detect_fails_closed[of "''hp_bar''" "0.8" no_hp_bar]
      detect_fails_closed[of "''hp_bar''" "0.8" blind]
      detect_fails_closed[of "''hp_bar''" "0.8" in_battle_forever]
    by blast
qed

section \<open>Movement\<close>

text \<open>Doubles that are their own rounding, and sums that round to 1.\<close>

lemma double_round_examples:
  "double_round (1 / 2) = Some (1 / 2)"
  "double_round (1 / 4) = Some (1 / 4)"
  "double_round (3 / 8) = Some (3 / 8)"
  "double_round (5 / 8) = Some (5 / 8)"
  "double_round (- (1 / 4)) = Some (- (1 / 4))"
  "double_round (2 ^ 40) = Some (2 ^ 40)"
  "double_round (1 / 2 ^ 60) = Some (1 / 2 ^ 60)"
  "double_round (1 / 2 ^ 59) = Some (1 / 2 ^ 59)"
  "double_round (1 + 1 / 2 ^ 60) = Some 1"
  "double_round (1 + 1 / 2 ^ 59) = Some 1"
  "double_round (2 ^ 1030) = None"
proof -
  show "double_round (1 / 2) = Some (1 / 2)"
    by (rule double_round_dyadic[of _ 1 "- 1"]) (simp_all add: power_int_minus)
  show "double_round (1 / 4) = Some (1 / 4)"
    by (rule double_round_dyadic[of _ 1 "- 2"]) (simp_all add: power_int_minus)
  show "double_round (3 / 8) = Some (3 / 8)"
    by (rule double_round_dyadic[of _ 3 "- 3"]) (simp_all add: power_int_minus)
  show "double_round (5 / 8) = Some (5 / 8)"
    by (rule double_round_dyadic[of _ 5 "- 3"]) (simp_all add: power_int_minus)
  show "double_round (- (1 / 4)) = Some (- (1 / 4))"
    by (rule double_round_dyadic[of _ "- 1" "- 2"]) (simp_all add: power_int_minus)
  show "double_round (2 ^ 40) = Some (2 ^ 40)"
    by (rule double_round_dyadic[of _ 1 40]) simp_all
  show "double_round (1 / 2 ^ 60) = Some (1 / 2 ^ 60)"
    by (rule double_round_dyadic[of _ 1 "- 60"]) (simp_all add: power_int_minus)
  show "double_round (1 / 2 ^ 59) = Some (1 / 2 ^ 59)"
    by (rule double_round_dyadic[of _ 1 "- 59"]) (simp_all add: power_int_minus)
  show "double_round (1 + 1 / 2 ^ 60) = Some 1"
    by (rule double_round_absorbs) simp_all
  show "double_round (1 + 1 / 2 ^ 59) = Some 1"
    by (rule double_round_absorbs) simp_all
  show "double_round (2 ^ 1030) = None"
    by (rule double_round_overflow) simp
qed

lemma timings_simps [simp]:
  "time_to_turn (timings turn tile) = turn"
  "time_per_space (timings turn tile) = tile"
  by (simp_all add: timings_def)

lemma walker_simps [simp]:
  "config (walker turn tile) = timings turn tile"
  "current_direction (walker turn tile) = LEFT"
  "trace (walker turn tile) = []"
  by (simp_all add: walker_def in_battle_forever_def PokemonBot_init_def)

text \<open>
  Claim C5 as stated fails: the duration is not strictly increasing in the number of
  spaces. Line 258 is double arithmetic, and a per-tile cost below half the spacing of the
  doubles around the turn cost is absorbed by the sum: with a turn cost of \<open>1.0\<close> and a
  per-tile cost of \<open>2\<^sup>-\<^sup>6\<^sup>0\<close>, one space and two spaces are both held for \<open>1.0\<close>.
\<close>

theorem move_hold_duration_counterexample:
  "0 < time_per_space (timings 1 (1 / 2 ^ 60)) \<and> (1::int) < 2
   \<and> total_time (timings 1 (1 / 2 ^ 60)) LEFT RIGHT 1 = Inr (Some 1)
   \<and> total_time (timings 1 (1 / 2 ^ 60)) LEFT RIGHT 2 = Inr (Some 1)"
proof -
  have "int_to_float 1 = Inr 1" "int_to_float 2 = Inr 2"
    using int_to_float_exact[of 1] int_to_float_exact[of 2] by simp_all
  then show ?thesis
    using double_round_examples
    by (simp add: total_time_def turn_time_def fmul_def fadd_def)
qed



section \<open>Fight execution\<close>

lemma map_of_setitem: "map_of (setitem d k v) = (map_of d)(k \<mapsto> v)"
  by (simp add: setitem_def update_conv')

lemma scripted_fight_prefix:
  "scripted (seq [press ''up'', sleep 0.1, press ''z'', sleep 0.3, press ''up'', sleep 0.1,
                  press ''up'', sleep 0.1, press ''left'', sleep 0.1])
     [Press ''up'', Sleep 0.1, Press ''z'', Sleep 0.3, Press ''up'', Sleep 0.1,
      Press ''up'', Sleep 0.1, Press ''left'', Sleep 0.1]"
  using scripted_seq_Cons[OF scripted_press[of "''up''"]
      scripted_seq_Cons[OF scripted_sleep[of "0.1"]
      scripted_seq_Cons[OF scripted_press[of "''z''"]
      scripted_seq_Cons[OF scripted_sleep[of "0.3"]
      scripted_seq_Cons[OF scripted_press[of "''up''"]
      scripted_seq_Cons[OF scripted_sleep[of "0.1"]
      scripted_seq_Cons[OF scripted_press[of "''up''"]
      scripted_seq_Cons[OF scripted_sleep[of "0.1"]
      scripted_seq_Cons[OF scripted_press[of "''left''"]
      scripted_seq_Cons[OF scripted_sleep[of "0.1"] scripted_seq_Nil]]]]]]]]]]
  by simp

lemma scripted_press_sleep:
  assumes "scripted (seq as) es"
  shows "scripted (seq (press k # sleep 0.1 # as)) (Press k # Sleep 0.1 # es)"
  using scripted_seq_Cons[OF scripted_press[of k]
      scripted_seq_Cons[OF scripted_sleep[of "0.1"] assms]]
  by simp

lemma scripted_press_z: "scripted (seq [press ''z'']) [Press ''z'']"
  using scripted_seq_Cons[OF scripted_press[of "''z''"] scripted_seq_Nil] by simp

text \<open>The inputs of the slot-specific tail of the fight script.\<close>

lemma scripted_ability_script:
  "scripted (seq (ability_script a))
     (if a = 1 then [Press ''z'']
      else if a = 2 then [Press ''right'', Sleep 0.1, Press ''z'']
      else if a = 3 then [Press ''down'', Sleep 0.1, Press ''z'']
      else if a = 4 then [Press ''down'', Sleep 0.1, Press ''right'', Sleep 0.1, Press ''z'']
      else [])"
  by (simp add: ability_script_def scripted_press_z scripted_press_sleep)

lemma fight_script_runs:
  "\<exists>s1. seq ([press ''up'', sleep 0.1, press ''z'', sleep 0.3, press ''up'', sleep 0.1,
                  press ''up'', sleep 0.1, press ''left'', sleep 0.1] @ ability_script a) s
          = Inr s1
     \<and> config s1 = config s
     \<and> inputs_of (trace s1) = inputs_of (trace s) @
         [Press ''up'', Sleep 0.1, Press ''z'', Sleep 0.3, Press ''up'', Sleep 0.1,
          Press ''up'', Sleep 0.1, Press ''left'', Sleep 0.1] @
         (if a = 1 then [Press ''z'']
          else if a = 2 then [Press ''right'', Sleep 0.1, Press ''z'']
          else if a = 3 then [Press ''down'', Sleep 0.1, Press ''z'']
          else if a = 4 then
            [Press ''down'', Sleep 0.1, Press ''right'', Sleep 0.1, Press ''z'']
          else [])"
  using scripted_seq_append[OF scripted_fight_prefix scripted_ability_script[of a]]
  unfolding scripted_def by blast

text \<open>
  What \<open>select_fight_and_ability\<close> does once an ability is chosen whose counter exists.
\<close>

lemma fight_with:
  assumes "map_of (current_pp (config s)) a = Some v"
  shows "\<exists>s'. seq (fight_script a) s = Inr s'
     \<and> config s' = (config s)\<lparr>current_pp := setitem (current_pp (config s)) a (v - 1)\<rparr>
     \<and> inputs_of (trace s') = inputs_of (trace s) @
         [Press ''up'', Sleep 0.1, Press ''z'', Sleep 0.3, Press ''up'', Sleep 0.1,
          Press ''up'', Sleep 0.1, Press ''left'', Sleep 0.1] @
         (if a = 1 then [Press ''z'']
          else if a = 2 then [Press ''right'', Sleep 0.1, Press ''z'']
          else if a = 3 then [Press ''down'', Sleep 0.1, Press ''z'']
          else if a = 4 then
            [Press ''down'', Sleep 0.1, Press ''right'', Sleep 0.1, Press ''z'']
          else []) @ [Sleep 0.3]"
proof -
  let ?pre = "[press ''up'', sleep 0.1, press ''z'', sleep 0.3, press ''up'', sleep 0.1,
                  press ''up'', sleep 0.1, press ''left'', sleep 0.1] @ ability_script a"
  from fight_script_runs[of a s] obtain s1 where 1: "seq ?pre s = Inr s1"
    "config s1 = config s"
    "inputs_of (trace s1) = inputs_of (trace s) @
         [Press ''up'', Sleep 0.1, Press ''z'', Sleep 0.3, Press ''up'', Sleep 0.1,
          Press ''up'', Sleep 0.1, Press ''left'', Sleep 0.1] @
         (if a = 1 then [Press ''z'']
          else if a = 2 then [Press ''right'', Sleep 0.1, Press ''z'']
          else if a = 3 then [Press ''down'', Sleep 0.1, Press ''z'']
          else if a = 4 then
            [Press ''down'', Sleep 0.1, Press ''right'', Sleep 0.1, Press ''z'']
          else [])"
    by blast
  let ?s2 = "s1\<lparr>config := (config s1)\<lparr>current_pp :=
                 setitem (current_pp (config s1)) a (v - 1)\<rparr>\<rparr>"
  have 2: "deduct_pp a s1 = Inr ?s2"
    using assms 1(2) by (simp add: deduct_pp_def getitem_def)
  have "scripted (sleep 0.3) [Sleep 0.3]" by simp
  then obtain s3 where 3: "sleep 0.3 ?s2 = Inr s3" "config s3 = config ?s2"
    "inputs_of (trace s3) = inputs_of (trace ?s2) @ [Sleep 0.3]"
    unfolding scripted_def by blast
  have "seq (?pre @ [deduct_pp a, sleep 0.3]) s = Inr s3"
    using 1(1) 2 3(1) by (simp only: seq_append seq.simps sum.case)
  moreover have "config s3 = (config s)\<lparr>current_pp := setitem (current_pp (config s)) a (v - 1)\<rparr>"
    using 3(2) 1(2) by simp
  moreover have "inputs_of (trace s3) = inputs_of (trace s1) @ [Sleep 0.3]"
    using 3(3) by simp
  ultimately show ?thesis
    using 1(3) unfolding fight_script_def by (simp only: append_assoc) blast
qed

text \<open>
  Claim C10. With an explicit argument \<open>a\<close> among 1 to 4, \<open>select_fight_and_ability\<close> runs
  the fight script, takes one off the counter of \<open>a\<close> and returns \<open>True\<close> whatever the
  counter is: a counter at 0 becomes -1. The guard on depleted counters is the one of
  \<open>get_ability_to_use\<close>, which is consulted only when the argument is omitted.
\<close>

theorem explicit_ability_skips_guard:
  assumes "a \<in> {1, 2, 3, 4}" and "remaining_uses (config s) a = Some v"
  shows "(\<exists>s'. select_fight_and_ability (Some a) s = Inr (True, s')
           \<and> remaining_uses (config s') a = Some (v - 1)
           \<and> inputs_of (trace s') = inputs_of (trace s) @
               [Press ''up'', Sleep 0.1, Press ''z'', Sleep 0.3, Press ''up'', Sleep 0.1,
                Press ''up'', Sleep 0.1, Press ''left'', Sleep 0.1] @
               (if a = 1 then [Press ''z'']
                else if a = 2 then [Press ''right'', Sleep 0.1, Press ''z'']
                else if a = 3 then [Press ''down'', Sleep 0.1, Press ''z'']
                else [Press ''down'', Sleep 0.1, Press ''right'', Sleep 0.1, Press ''z''])
               @ [Sleep 0.3])
       \<and> (get_ability_to_use (config s) = Inr None \<longrightarrow>
            select_fight_and_ability None s = Inr (False, s))"
proof -
  from assms(2) have m: "map_of (current_pp (config s)) a = Some v"
    by (simp add: remaining_uses_def)
  from fight_with[OF m] obtain s' where
    "seq (fight_script a) s = Inr s'"
    "config s' = (config s)\<lparr>current_pp := setitem (current_pp (config s)) a (v - 1)\<rparr>"
    "inputs_of (trace s') = inputs_of (trace s) @
         [Press ''up'', Sleep 0.1, Press ''z'', Sleep 0.3, Press ''up'', Sleep 0.1,
          Press ''up'', Sleep 0.1, Press ''left'', Sleep 0.1] @
         (if a = 1 then [Press ''z'']
          else if a = 2 then [Press ''right'', Sleep 0.1, Press ''z'']
          else if a = 3 then [Press ''down'', Sleep 0.1, Press ''z'']
          else if a = 4 then
            [Press ''down'', Sleep 0.1, Press ''right'', Sleep 0.1, Press ''z'']
          else []) @ [Sleep 0.3]"
    by blast
  then have "select_fight_and_ability (Some a) s = Inr (True, s')
           \<and> remaining_uses (config s') a = Some (v - 1)
           \<and> inputs_of (trace s') = inputs_of (trace s) @
               [Press ''up'', Sleep 0.1, Press ''z'', Sleep 0.3, Press ''up'', Sleep 0.1,
                Press ''up'', Sleep 0.1, Press ''left'', Sleep 0.1] @
               (if a = 1 then [Press ''z'']
                else if a = 2 then [Press ''right'', Sleep 0.1, Press ''z'']
                else if a = 3 then [Press ''down'', Sleep 0.1, Press ''z'']
                else [Press ''down'', Sleep 0.1, Press ''right'', Sleep 0.1, Press ''z''])
               @ [Sleep 0.3]"
    using assms(1)
    by (auto simp: select_fight_and_ability_def remaining_uses_def map_of_setitem
        simp del: seq.simps)
  moreover have "get_ability_to_use (config s) = Inr None \<longrightarrow>
            select_fight_and_ability None s = Inr (False, s)"
    by (simp add: select_fight_and_ability_def)
  ultimately show ?thesis by blast
qed

theorem explicit_ability_skips_guard_witness:
  "(1::int) \<in> {1, 2, 3, 4}
   \<and> remaining_uses (config primary_depleted) 1 = Some 0
   \<and> (\<exists>s'. select_fight_and_ability (Some 1) primary_depleted = Inr (True, s')
         \<and> remaining_uses (config s') 1 = Some (- 1))
   \<and> select_fight_and_ability None primary_depleted = Inr (False, primary_depleted)"
proof -
  have r: "remaining_uses (config primary_depleted) 1 = Some 0"
    by (simp add: primary_depleted_def BotConfig_init_def remaining_uses_def)
  have g: "get_ability_to_use (config primary_depleted) = Inr None"
    by (simp add: primary_depleted_def BotConfig_init_def get_ability_to_use_def getitem_def)
  show ?thesis
    using explicit_ability_skips_guard[of 1 primary_depleted 0] r g by auto
qed

section \<open>Where the counters change\<close>

lemma fight_deducts:
  assumes "seq (fight_script a) s = Inr s'"
  shows "\<exists>v. map_of (current_pp (config s)) a = Some v
           \<and> config s' = (config s)\<lparr>current_pp := setitem (current_pp (config s)) a (v - 1)\<rparr>"
proof (cases "map_of (current_pp (config s)) a")
  case None
  let ?pre = "[press ''up'', sleep 0.1, press ''z'', sleep 0.3, press ''up'', sleep 0.1,
                  press ''up'', sleep 0.1, press ''left'', sleep 0.1] @ ability_script a"
  from fight_script_runs[of a s] obtain s1 where 1: "seq ?pre s = Inr s1"
    "config s1 = config s" by blast
  have "deduct_pp a s1 = Inl KeyError"
    using None 1(2) by (simp add: deduct_pp_def getitem_def)
  with 1(1) have "seq (?pre @ [deduct_pp a, sleep 0.3]) s = Inl KeyError"
    by (simp only: seq_append seq.simps sum.case)
  then have "seq (fight_script a) s = Inl KeyError"
    unfolding fight_script_def by (simp only: append_assoc)
  with assms show ?thesis by simp
next
  case (Some v)
  from fight_with[OF Some] assms show ?thesis using Some by auto
qed

lemma get_ability_to_use_Some:
  "get_ability_to_use c = Inr (Some a) \<Longrightarrow> \<exists>v. map_of (current_pp c) a = Some v \<and> 0 < v"
  by (auto simp: get_ability_to_use_def getitem_def split: option.splits if_splits)

lemma select_fight_True:
  assumes "select_fight_and_ability ability0 s = Inr (True, s')"
  shows "\<exists>a v. (case ability0 of None \<Rightarrow> get_ability_to_use (config s) = Inr (Some a)
                                | Some a' \<Rightarrow> a' = a)
           \<and> map_of (current_pp (config s)) a = Some v
           \<and> config s' = (config s)\<lparr>current_pp := setitem (current_pp (config s)) a (v - 1)\<rparr>"
  using assms
  by (auto simp: select_fight_and_ability_def simp del: seq.simps
      split: option.splits sum.splits dest!: fight_deducts)

lemma select_fight_False:
  "select_fight_and_ability ability0 s = Inr (False, s') \<Longrightarrow> s' = s"
  by (auto simp: select_fight_and_ability_def simp del: seq.simps
      split: option.splits sum.splits)

lemma decrement_Some:
  "map_of d a = Some v \<Longrightarrow> setitem d a (v - 1) = decrement d a"
  by (simp add: decrement_def)

lemma decrements_Nil [simp]: "decrements d [] = d"
  by (simp add: decrements_def)

lemma decrements_append: "decrements (decrements d as) bs = decrements d (as @ bs)"
  by (simp add: decrements_def)

lemma decrements_single: "decrement d a = decrements d [a]"
  by (simp add: decrements_def)

lemma only_decrements_refl [simp]: "only_decrements c c"
  unfolding only_decrements_def by (rule exI[of _ "[]"]) simp

lemma only_decrements_trans:
  "only_decrements c c' \<Longrightarrow> only_decrements c' c'' \<Longrightarrow> only_decrements c c''"
  unfolding only_decrements_def by (auto simp: decrements_append)

lemma only_decrements_eq: "c' = c \<Longrightarrow> only_decrements c c'"
  by simp

lemma only_decrements_max_pp: "only_decrements c c' \<Longrightarrow> max_pp c' = max_pp c"
  by (auto simp: only_decrements_def)

lemma select_fight_only_decrements:
  assumes "select_fight_and_ability ability0 s = Inr (b, s')"
  shows "only_decrements (config s) (config s')"
proof (cases b)
  case True
  with assms have "select_fight_and_ability ability0 s = Inr (True, s')" by simp
  from select_fight_True[OF this] have
    "\<exists>a v. map_of (current_pp (config s)) a = Some v
       \<and> config s' = (config s)\<lparr>current_pp := setitem (current_pp (config s)) a (v - 1)\<rparr>"
    by blast
  then obtain a v where
    "map_of (current_pp (config s)) a = Some v"
    "config s' = (config s)\<lparr>current_pp := setitem (current_pp (config s)) a (v - 1)\<rparr>"
    by blast
  then have "config s' = (config s)\<lparr>current_pp := decrements (current_pp (config s)) [a]\<rparr>"
    by (simp add: decrement_Some decrements_single)
  then show ?thesis unfolding only_decrements_def by blast
next
  case False
  with assms have "s' = s" by (simp add: select_fight_False)
  then show ?thesis by simp
qed

lemma battle_turn_only_decrements:
  assumes "battle_turn s = Inr (r, s')"
  shows "only_decrements (config s) (config s')"
proof -
  from assms obtain fought s1 where 1: "select_fight_and_ability None s = Inr (fought, s1)"
    by (auto simp: battle_turn_def split: sum.splits)
  have d: "only_decrements (config s) (config s1)"
    using 1 by (rule select_fight_only_decrements)
  show ?thesis
  proof (cases fought)
    case True
    with assms 1 have "s' = s1" by (simp add: battle_turn_def)
    with d show ?thesis by simp
  next
    case False
    with assms 1 have "select_run s1 = Inr (r, s')"
      by (auto simp: battle_turn_def split: sum.splits)
    then have "config s' = config s1" by (rule select_run_config)
    with d show ?thesis by simp
  qed
qed

lemma handle_battle_only_decrements:
  "handle_battle n s = Some (Inr (r, s')) \<Longrightarrow> only_decrements (config s) (config s')"
proof (induction n arbitrary: s)
  case 0
  then show ?case by simp
next
  case (Suc n)
  from Suc.prems obtain b s1 where 1: "is_in_battle (detection_threshold (config s)) s = Inr (b, s1)"
    by (auto split: sum.splits)
  have c1: "config s1 = config s" using 1 by (rule is_in_battle_config)
  show ?case
  proof (cases b)
    case False
    with Suc.prems 1 have "s' = s1" by simp
    with c1 show ?thesis by simp
  next
    case True
    note b = True
    from Suc.prems 1 b obtain m s2 where
      2: "is_battle_menu_visible (detection_threshold (config s1)) s1 = Inr (m, s2)"
      by (auto split: sum.splits)
    have c2: "config s2 = config s" using 2 c1 by (simp add: is_battle_menu_visible_config)
    from Suc.prems 1 b 2 obtain returned s3 where
      3: "(if m then battle_turn s2 else Inr (False, s2)) = Inr (returned, s3)"
      by (auto split: sum.splits)
    have c3: "only_decrements (config s) (config s3)"
      using 3 c2 battle_turn_only_decrements[of s2 returned s3]
      by (auto split: if_splits)
    show ?thesis
    proof (cases returned)
      case True
      with Suc.prems 1 b 2 3 have "s' = s3" by simp
      with c3 show ?thesis by simp
    next
      case False
      note nr = False
      from Suc.prems 1 b 2 3 nr obtain s4 where
        4: "sleep (attack_wait_time (config s3)) s3 = Inr s4"
        by (auto split: sum.splits)
      from Suc.prems 1 b 2 3 nr 4 obtain still s5 where
        5: "is_in_battle (detection_threshold (config s4)) s4 = Inr (still, s5)"
        by (auto split: sum.splits)
      have c5: "config s5 = config s3"
        using 4 5 by (simp add: sleep_config is_in_battle_config)
      show ?thesis
      proof (cases still)
        case False
        with Suc.prems 1 b 2 3 nr 4 5 have "s' = s5" by simp
        with c3 c5 show ?thesis by simp
      next
        case True
        with Suc.prems 1 b 2 3 nr 4 5 have "handle_battle n s5 = Some (Inr (r, s'))" by simp
        then have "only_decrements (config s5) (config s')" by (rule Suc.IH)
        with c3 c5 show ?thesis by (auto intro: only_decrements_trans)
      qed
    qed
  qed
qed

section \<open>Reset and the invariant of the counters\<close>

lemma reset_loop_all:
  assumes "reset_loop [1, 2, 3, 4] c = Inr c'"
  shows "\<exists>m1 m2 m3 m4. map_of (max_pp c) 1 = Some m1 \<and> map_of (max_pp c) 2 = Some m2
           \<and> map_of (max_pp c) 3 = Some m3 \<and> map_of (max_pp c) 4 = Some m4
           \<and> c' = c\<lparr>current_pp :=
                 setitem (setitem (setitem (setitem (current_pp c) 1 m1) 2 m2) 3 m3) 4 m4\<rparr>"
  using assms by (auto simp: getitem_def split: option.splits)

lemma reset_loop_max_pp: "reset_loop as c = Inr c' \<Longrightarrow> max_pp c' = max_pp c"
  by (induction as arbitrary: c) (auto split: sum.splits)

lemma reset_loop_restores:
  assumes "reset_loop [1, 2, 3, 4] c = Inr c'" and "i \<in> {1, 2, 3, 4}"
  shows "remaining_uses c' i = max_uses c' i \<and> max_uses c' i \<noteq> None"
  using reset_loop_all[OF assms(1)] assms(2)
  by (auto simp: remaining_uses_def max_uses_def map_of_setitem)

lemma reset_loop_succeeds:
  assumes "list_all (\<lambda>i. map_of (max_pp c) i \<noteq> None) [1, 2, 3, 4]"
  shows "\<exists>c'. reset_loop [1, 2, 3, 4] c = Inr c'"
  using assms by (auto simp: getitem_def)

lemma pp_inv_reset:
  assumes "reset_loop [1, 2, 3, 4] c = Inr c'" and "pp_inv c"
  shows "pp_inv c'"
  using reset_loop_all[OF assms(1)] assms(2)
  by (auto simp: pp_inv_def pp_ok_def map_of_setitem split: option.splits)

lemma pp_ok_setitem_other:
  "i \<noteq> a \<Longrightarrow> pp_ok (c\<lparr>current_pp := setitem (current_pp c) a v\<rparr>) i = pp_ok c i"
  by (simp add: pp_ok_def map_of_setitem split: option.splits)

lemma pp_ok_decrement:
  assumes "pp_ok c i" and "map_of (current_pp c) a = Some v" and "0 < v"
  shows "pp_ok (c\<lparr>current_pp := setitem (current_pp c) a (v - 1)\<rparr>) i"
  using assms by (cases "i = a") (auto simp: pp_ok_def map_of_setitem split: option.splits)

lemma pp_inv_decrement:
  assumes "pp_inv c" and "map_of (current_pp c) a = Some v" and "0 < v"
  shows "pp_inv (c\<lparr>current_pp := setitem (current_pp c) a (v - 1)\<rparr>)"
  using assms by (simp add: pp_inv_def pp_ok_decrement)

lemma pp_inv_select_fight:
  assumes "select_fight_and_ability None s = Inr (b, s')" and "pp_inv (config s)"
  shows "pp_inv (config s')"
proof (cases b)
  case True
  with assms(1) have "select_fight_and_ability None s = Inr (True, s')" by simp
  from select_fight_True[OF this] obtain a v where
    g: "get_ability_to_use (config s) = Inr (Some a)"
    and m: "map_of (current_pp (config s)) a = Some v"
    and c: "config s' = (config s)\<lparr>current_pp := setitem (current_pp (config s)) a (v - 1)\<rparr>"
    by auto
  from get_ability_to_use_Some[OF g] m have "0 < v" by auto
  with assms(2) m c show ?thesis by (simp add: pp_inv_decrement)
next
  case False
  with assms(1) have "s' = s" by (simp add: select_fight_False)
  with assms(2) show ?thesis by simp
qed

lemma pp_inv_battle_turn:
  assumes "battle_turn s = Inr (r, s')" and "pp_inv (config s)"
  shows "pp_inv (config s')"
proof -
  from assms(1) obtain fought s1 where 1: "select_fight_and_ability None s = Inr (fought, s1)"
    by (auto simp: battle_turn_def split: sum.splits)
  have d: "pp_inv (config s1)" using 1 assms(2) by (rule pp_inv_select_fight)
  show ?thesis
  proof (cases fought)
    case True
    with assms(1) 1 have "s' = s1" by (simp add: battle_turn_def)
    with d show ?thesis by simp
  next
    case False
    with assms(1) 1 have "select_run s1 = Inr (r, s')"
      by (auto simp: battle_turn_def split: sum.splits)
    then have "config s' = config s1" by (rule select_run_config)
    with d show ?thesis by simp
  qed
qed

lemma pp_inv_handle_battle:
  "handle_battle n s = Some (Inr (r, s')) \<Longrightarrow> pp_inv (config s) \<Longrightarrow> pp_inv (config s')"
proof (induction n arbitrary: s)
  case 0
  then show ?case by simp
next
  case (Suc n)
  from Suc.prems(1) obtain b s1 where
    1: "is_in_battle (detection_threshold (config s)) s = Inr (b, s1)"
    by (auto split: sum.splits)
  have c1: "config s1 = config s" using 1 by (rule is_in_battle_config)
  show ?case
  proof (cases b)
    case False
    with Suc.prems(1) 1 have "s' = s1" by simp
    with c1 Suc.prems(2) show ?thesis by simp
  next
    case True
    note b = True
    from Suc.prems(1) 1 b obtain m s2 where
      2: "is_battle_menu_visible (detection_threshold (config s1)) s1 = Inr (m, s2)"
      by (auto split: sum.splits)
    have c2: "config s2 = config s" using 2 c1 by (simp add: is_battle_menu_visible_config)
    from Suc.prems(1) 1 b 2 obtain returned s3 where
      3: "(if m then battle_turn s2 else Inr (False, s2)) = Inr (returned, s3)"
      by (auto split: sum.splits)
    have c3: "pp_inv (config s3)"
      using 3 c2 Suc.prems(2) pp_inv_battle_turn[of s2 returned s3]
      by (auto split: if_splits)
    show ?thesis
    proof (cases returned)
      case True
      with Suc.prems(1) 1 b 2 3 have "s' = s3" by simp
      with c3 show ?thesis by simp
    next
      case False
      note nr = False
      from Suc.prems(1) 1 b 2 3 nr obtain s4 where
        4: "sleep (attack_wait_time (config s3)) s3 = Inr s4"
        by (auto split: sum.splits)
      from Suc.prems(1) 1 b 2 3 nr 4 obtain still s5 where
        5: "is_in_battle (detection_threshold (config s4)) s4 = Inr (still, s5)"
        by (auto split: sum.splits)
      have c5: "config s5 = config s3"
        using 4 5 by (simp add: sleep_config is_in_battle_config)
      show ?thesis
      proof (cases still)
        case False
        with Suc.prems(1) 1 b 2 3 nr 4 5 have "s' = s5" by simp
        with c3 c5 show ?thesis by simp
      next
        case True
        with Suc.prems(1) 1 b 2 3 nr 4 5 have "handle_battle n s5 = Some (Inr (r, s'))"
          by simp
        moreover have "pp_inv (config s5)" using c3 c5 by simp
        ultimately show ?thesis by (rule Suc.IH)
      qed
    qed
  qed
qed

section \<open>The automation loop and the counters\<close>

lemma reset_all_pp_config:
  "reset_all_pp s = Inr s' \<Longrightarrow> reset_loop [1, 2, 3, 4] (config s) = Inr (config s')"
  by (auto simp: reset_all_pp_def simp del: reset_loop.simps split: sum.splits)

lemma heal_config:
  assumes "heal_pokemon_at_center s = Inr s'"
  shows "reset_loop [1, 2, 3, 4] (config s) = Inr (config s')"
proof -
  let ?pre = "[ok (set_state HEALING),
          sleep 0.8, press ''z'', sleep 0.8, press ''z'', sleep 0.8, press ''z'',
          sleep 0.8, press ''z'', sleep 0.8, press ''z'', sleep 0.8]"
  from assms have "seq (?pre @ [reset_all_pp, ok stop]) s = Inr s'"
    unfolding heal_pokemon_at_center_def by (simp only: append.simps)
  then have "(case seq ?pre s of Inl e \<Rightarrow> Inl e
               | Inr s1 \<Rightarrow> seq [reset_all_pp, ok stop] s1) = Inr s'"
    by (simp only: seq_append)
  then obtain s1 where 1: "seq ?pre s = Inr s1"
    and 2: "seq [reset_all_pp, ok stop] s1 = Inr s'"
    by (cases "seq ?pre s") (simp_all only: sum.case sum.distinct)
  have c1: "config s1 = config s"
    using 1 by (rule seq_config) simp
  from 2 obtain s2 where 3: "reset_all_pp s1 = Inr s2" and "s' = stop s2"
    by (auto simp: ok_def split: sum.splits)
  then show ?thesis using reset_all_pp_config[OF 3] c1 by simp
qed

lemma end_of_iteration_config:
  "end_of_iteration s = Inr (ret, s') \<Longrightarrow> \<not> ret \<and> config s' = config s"
  by (auto simp: end_of_iteration_def split: sum.splits dest: sleep_config)

lemma after_battle_config:
  assumes "after_battle result s = Inr (ret, s')"
  shows "if ret then reset_loop [1, 2, 3, 4] (config s) = Inr (config s')
         else config s' = config s"
proof (cases "result = ''run'' \<and> use_abra_teleport (config s)")
  case False
  with assms have "end_of_iteration (set_state MOVING (set_state RUNNING s\<lparr>runs := runs s + 1\<rparr>))
       = Inr (ret, s') \<or> end_of_iteration (set_state MOVING s) = Inr (ret, s')"
    by (auto simp: after_battle_def Let_def set_state_def emit_def split: if_splits)
  then show ?thesis by (auto dest!: end_of_iteration_config)
next
  case True
  let ?s2 = "(set_state RUNNING s)\<lparr>runs := runs (set_state RUNNING s) + 1\<rparr>"
  have c2: "config ?s2 = config s" by simp
  from True assms obtain s3 where 3: "sleep 2 ?s2 = Inr s3"
    by (auto simp: after_battle_def Let_def split: sum.splits)
  from True assms 3 obtain teleported s4 where 4: "teleport_to_pokecenter s3 = Inr (teleported, s4)"
    by (auto simp: after_battle_def Let_def split: sum.splits)
  have c4: "config s4 = config s"
    using sleep_config[OF 3] teleport_config[OF 4] c2 by simp
  show ?thesis
  proof (cases teleported)
    case False
    with True assms 3 4 have "end_of_iteration (set_state MOVING s4) = Inr (ret, s')"
      by (simp add: after_battle_def Let_def)
    from end_of_iteration_config[OF this] c4 show ?thesis by simp
  next
    case True
    note tp = True
    from \<open>result = ''run'' \<and> use_abra_teleport (config s)\<close> assms 3 4 tp
    obtain s5 where 5: "seq [sleep 2, heal_pokemon_at_center] s4 = Inr s5" and r: "ret" "s' = s5"
      by (auto simp: after_battle_def Let_def simp del: seq.simps split: sum.splits)
    from 5 obtain s6 where 6: "sleep 2 s4 = Inr s6" "heal_pokemon_at_center s6 = Inr s5"
      by (auto split: sum.splits)
    from heal_config[OF 6(2)] sleep_config[OF 6(1)] c4 r show ?thesis by simp
  qed
qed

lemma pp_inv_after_battle:
  assumes "after_battle result s = Inr (ret, s')" and "pp_inv (config s)"
  shows "pp_inv (config s')"
  using after_battle_config[OF assms(1)] assms(2)
  by (auto simp del: reset_loop.simps split: if_splits dest: pp_inv_reset)

text \<open>
  One iteration of the main loop applies single decrements (the fights of the battle) to
  the counters, and after them the reset of the recovery if it returns.
\<close>

lemma main_loop_body_config:
  assumes "main_loop_body n s = Some (Inr (ret, s'))"
  shows "\<exists>c1. only_decrements (config s) c1
           \<and> (if ret then reset_loop [1, 2, 3, 4] c1 = Inr (config s') else config s' = c1)"
proof -
  from assms obtain b s1 where
    1: "is_in_battle (detection_threshold (config s)) s = Inr (b, s1)"
    by (auto simp: main_loop_body_def split: sum.splits)
  have c1: "config s1 = config s" using 1 by (rule is_in_battle_config)
  show ?thesis
  proof (cases b)
    case True
    let ?s3 = "(set_state IN_BATTLE s1)\<lparr>battles := battles (set_state IN_BATTLE s1) + 1\<rparr>"
    let ?s4 = "if \<not> has_pp (config ?s3) then set_state RUNNING ?s3 else set_state ATTACKING ?s3"
    have c4: "config ?s4 = config s" using c1 by simp
    from assms 1 True obtain result s5 where
      5: "handle_battle n ?s4 = Some (Inr (result, s5))"
      and 6: "after_battle result s5 = Inr (ret, s')"
      by (auto simp: main_loop_body_def Let_def split: option.splits sum.splits)
    have "only_decrements (config s) (config s5)"
      using handle_battle_only_decrements[OF 5] c4 by simp
    with after_battle_config[OF 6] show ?thesis by blast
  next
    case False
    have "\<not> ret \<and> config s' = config s"
    proof (cases "state s1 = MOVING")
      case True
      with assms 1 \<open>\<not> b\<close> obtain s2 s3 where
        2: "move_cycle s1 = Inr s2"
        and 3: "sleep (movement_delay (config s2)) (s2\<lparr>movements := movements s2 + 1\<rparr>) = Inr s3"
        and 4: "end_of_iteration s3 = Inr (ret, s')"
        by (auto simp: main_loop_body_def split: sum.splits)
      from move_cycle_config[OF 2] sleep_config[OF 3] end_of_iteration_config[OF 4] c1
      show ?thesis by simp
    next
      case False
      with assms 1 \<open>\<not> b\<close> have "end_of_iteration s1 = Inr (ret, s')"
        by (simp add: main_loop_body_def)
      from end_of_iteration_config[OF this] c1 show ?thesis by simp
    qed
    then show ?thesis by (intro exI[of _ "config s"]) simp
  qed
qed

lemma pp_inv_main_loop_body:
  assumes "main_loop_body n s = Some (Inr (ret, s'))" and "pp_inv (config s)"
  shows "pp_inv (config s')"
proof -
  from assms(1) obtain b s1 where
    1: "is_in_battle (detection_threshold (config s)) s = Inr (b, s1)"
    by (auto simp: main_loop_body_def split: sum.splits)
  have c1: "config s1 = config s" using 1 by (rule is_in_battle_config)
  show ?thesis
  proof (cases b)
    case True
    let ?s3 = "(set_state IN_BATTLE s1)\<lparr>battles := battles (set_state IN_BATTLE s1) + 1\<rparr>"
    let ?s4 = "if \<not> has_pp (config ?s3) then set_state RUNNING ?s3 else set_state ATTACKING ?s3"
    have c4: "config ?s4 = config s" using c1 by simp
    from assms(1) 1 True obtain result s5 where
      5: "handle_battle n ?s4 = Some (Inr (result, s5))"
      and 6: "after_battle result s5 = Inr (ret, s')"
      by (auto simp: main_loop_body_def Let_def split: option.splits sum.splits)
    have "pp_inv (config s5)"
      using pp_inv_handle_battle[OF 5] c4 assms(2) by simp
    with 6 show ?thesis by (rule pp_inv_after_battle)
  next
    case False
    from main_loop_body_config[OF assms(1)] obtain c1' where
      "only_decrements (config s) c1'" by blast
    have "config s' = config s"
    proof (cases "state s1 = MOVING")
      case True
      with assms(1) 1 \<open>\<not> b\<close> obtain s2 s3 where
        2: "move_cycle s1 = Inr s2"
        and 3: "sleep (movement_delay (config s2)) (s2\<lparr>movements := movements s2 + 1\<rparr>) = Inr s3"
        and 4: "end_of_iteration s3 = Inr (ret, s')"
        by (auto simp: main_loop_body_def split: sum.splits)
      from move_cycle_config[OF 2] sleep_config[OF 3] end_of_iteration_config[OF 4] c1
      show ?thesis by simp
    next
      case False
      with assms(1) 1 \<open>\<not> b\<close> have "end_of_iteration s1 = Inr (ret, s')"
        by (simp add: main_loop_body_def)
      from end_of_iteration_config[OF this] c1 show ?thesis by simp
    qed
    with assms(2) show ?thesis by simp
  qed
qed

lemma pp_inv_main_loop_iter:
  "main_loop_iter n s = Some (Inr s') \<Longrightarrow> pp_inv (config s) \<Longrightarrow> pp_inv (config s')"
proof (induction n arbitrary: s)
  case 0
  then show ?case by simp
next
  case (Suc n)
  show ?case
  proof (cases "running s")
    case False
    with Suc.prems show ?thesis by simp
  next
    case True
    with Suc.prems(1) obtain ret s1 where
      1: "main_loop_body (Suc n) s = Some (Inr (ret, s1))"
      and 2: "if ret then s' = s1 else main_loop_iter n s1 = Some (Inr s')"
      by (auto split: option.splits sum.splits if_splits)
    have "pp_inv (config s1)" using 1 Suc.prems(2) by (rule pp_inv_main_loop_body)
    with 2 Suc.IH show ?thesis by (auto split: if_splits)
  qed
qed

lemma pp_inv_main_loop:
  assumes "main_loop n s = Some (Inr s')" and "pp_inv (config s)"
  shows "pp_inv (config s')"
proof -
  from assms(1) obtain s1 where 1: "sleep (of_int (startup_delay (config s))) s = Inr s1"
    and 2: "main_loop_iter n s1 = Some (Inr s')"
    by (auto simp: main_loop_def split: sum.splits)
  from sleep_config[OF 1] assms(2) have "pp_inv (config s1)" by simp
  with 2 show ?thesis by (rule pp_inv_main_loop_iter)
qed

section \<open>The configuration surface\<close>

lemma update_pp_display_same: "update_pp_display s = Inr s' \<Longrightarrow> s' = s"
  by (simp add: update_pp_display_def split: if_splits)

lemma pp_inv_set_both:
  assumes "pp_inv c" and "0 < v"
  shows "pp_inv (c\<lparr>max_pp := setitem (max_pp c) a v, current_pp := setitem (current_pp c) a v\<rparr>)"
  using assms by (auto simp: pp_inv_def pp_ok_def map_of_setitem split: option.splits)

lemma pp_inv_update_pp:
  assumes "update_pp a p s = Inr s'" and "pp_inv (config s)"
  shows "pp_inv (config s')"
proof (cases p)
  case None
  with assms show ?thesis by (auto simp: update_pp_def split: sum.splits)
next
  case (Some v)
  show ?thesis
  proof (cases "0 < v")
    case True
    with assms(1) Some have
      "s' = s\<lparr>config := (config s)\<lparr>max_pp := setitem (max_pp (config s)) a v,
                                   current_pp := setitem (current_pp (config s)) a v\<rparr>\<rparr>"
      by (auto simp: update_pp_def dest: update_pp_display_same)
    with assms(2) True show ?thesis by (simp add: pp_inv_set_both)
  next
    case False
    with assms Some show ?thesis by (simp add: update_pp_def)
  qed
qed

lemma pp_inv_heal:
  "heal_pokemon_at_center s = Inr s' \<Longrightarrow> pp_inv (config s) \<Longrightarrow> pp_inv (config s')"
  by (auto dest!: heal_config dest: pp_inv_reset simp del: reset_loop.simps)

lemma pp_inv_reset_pp:
  assumes "reset_pp s = Inr s'" and "pp_inv (config s)"
  shows "pp_inv (config s')"
proof -
  from assms(1) obtain s1 where 1: "reset_all_pp s = Inr s1" and 2: "update_pp_display s1 = Inr s'"
    by (auto simp: reset_pp_def split: sum.splits)
  from reset_all_pp_config[OF 1] assms(2) have "pp_inv (config s1)" by (rule pp_inv_reset)
  with update_pp_display_same[OF 2] show ?thesis by simp
qed

lemma pp_inv_update_all:
  "seq (map (\<lambda>ability. update_pp ability (entry ability)) as) s = Inr s' \<Longrightarrow>
   pp_inv (config s) \<Longrightarrow> pp_inv (config s')"
proof (induction as arbitrary: s)
  case Nil
  then show ?case by simp
next
  case (Cons a as)
  from Cons.prems(1) obtain s1 where 1: "update_pp a (entry a) s = Inr s1"
    and 2: "seq (map (\<lambda>ability. update_pp ability (entry ability)) as) s1 = Inr s'"
    by (auto split: sum.splits)
  from pp_inv_update_pp[OF 1 Cons.prems(2)] 2 show ?case by (rule Cons.IH[rotated])
qed

lemma pp_inv_toggle_bot:
  assumes "toggle_bot entry s = Inr s'" and "pp_inv (config s)"
  shows "pp_inv (config s')"
proof (cases "running s")
  case True
  with assms show ?thesis by (auto simp: toggle_bot_def)
next
  case False
  note nr = False
  show ?thesis
  proof (cases "map_of (templates s) ''hp_bar'' = None")
    case True
    with assms nr show ?thesis by (auto simp: toggle_bot_def)
  next
    case False
    with assms(1) nr obtain s1 where
      1: "seq (map (\<lambda>ability. update_pp ability (entry ability)) [1, 2, 3, 4]) s = Inr s1"
      and 2: "s' = (start s1)\<lparr>control_button := ''STOP BOT'', status_label := ''Status: Running''\<rparr>"
      by (auto simp: toggle_bot_def simp del: seq.simps list.map split: sum.splits)
    from pp_inv_update_all[OF 1 assms(2)] 2 show ?thesis by simp
  qed
qed

lemma select_fight_runs:
  assumes "get_ability_to_use (config s) = Inr (Some a)"
  shows "\<exists>s'. select_fight_and_ability None s = Inr (True, s')"
proof -
  from get_ability_to_use_Some[OF assms] obtain v where
    "map_of (current_pp (config s)) a = Some v" by blast
  from fight_with[OF this] obtain s' where "seq (fight_script a) s = Inr s'" by blast
  with assms show ?thesis by (simp add: select_fight_and_ability_def)
qed

text \<open>
  Claim C7. The invariant \<open>0 \<le> remaining_uses \<le> max_uses\<close> of the abilities 1 to 4 holds for
  the configuration that \<open>PokemonBot\<close> creates and is kept by the fight as the battle loop
  invokes it, by the battle loop, by the recovery and the whole main loop, and by the
  reset and the update of the maximal PP of the control surface. (Ability selection only
  reads the configuration.)
\<close>

theorem counters_invariant:
  "pp_inv (BotConfig_init None None)
   \<and> (pp_inv (config s) \<longrightarrow>
        (\<forall>b s'. select_fight_and_ability None s = Inr (b, s') \<longrightarrow> pp_inv (config s'))
      \<and> (\<forall>n r s'. handle_battle n s = Some (Inr (r, s')) \<longrightarrow> pp_inv (config s'))
      \<and> (\<forall>s'. heal_pokemon_at_center s = Inr s' \<longrightarrow> pp_inv (config s'))
      \<and> (\<forall>n s'. main_loop n s = Some (Inr s') \<longrightarrow> pp_inv (config s'))
      \<and> (\<forall>s'. reset_pp s = Inr s' \<longrightarrow> pp_inv (config s'))
      \<and> (\<forall>a p s'. update_pp a p s = Inr s' \<longrightarrow> pp_inv (config s'))
      \<and> (\<forall>entry s'. toggle_bot entry s = Inr s' \<longrightarrow> pp_inv (config s')))"
proof (intro conjI impI allI)
  show "pp_inv (BotConfig_init None None)"
    by (simp add: pp_inv_def pp_ok_def BotConfig_init_def Let_def)
qed (blast intro: pp_inv_select_fight pp_inv_handle_battle pp_inv_heal pp_inv_main_loop
      pp_inv_reset_pp pp_inv_update_pp pp_inv_toggle_bot)+

theorem counters_invariant_witness:
  "pp_inv (config in_battle_forever)
   \<and> (\<exists>s'. select_fight_and_ability None in_battle_forever = Inr (True, s')
         \<and> pp_inv (config s'))
   \<and> (\<exists>s'. update_pp 2 (Some 5) in_battle_forever = Inr s' \<and> pp_inv (config s'))"
proof -
  have c: "config in_battle_forever = BotConfig_init None None"
    by (simp add: in_battle_forever_def PokemonBot_init_def)
  have g: "get_ability_to_use (config in_battle_forever) = Inr (Some 1)"
    by (simp add: c BotConfig_init_def Let_def get_ability_to_use_def getitem_def)
  from select_fight_runs[OF g] obtain s1 where
    1: "select_fight_and_ability None in_battle_forever = Inr (True, s1)" by blast
  have "\<exists>s2. update_pp 2 (Some 5) in_battle_forever = Inr s2"
    by (simp add: update_pp_def update_pp_display_def c BotConfig_init_def Let_def setitem_def)
  then obtain s2 where 2: "update_pp 2 (Some 5) in_battle_forever = Inr s2" by blast
  from counters_invariant[of in_battle_forever] c
  have i: "pp_inv (config in_battle_forever)" by simp
  with counters_invariant[of in_battle_forever] 1 2 show ?thesis by blast
qed

section \<open>Starting without the HP bar template\<close>

text \<open>
  Claim C9 as stated fails. The refusal is not in the engine: \<open>PokemonBot.start\<close> makes no
  check of the templates. Called on a stopped bot without the \<open>hp_bar\<close> template it sets
  the running flag, makes the state \<open>MOVING\<close> and launches the worker.
\<close>

theorem start_unguarded_counterexample:
  "map_of (templates no_hp_bar) ''hp_bar'' = None
   \<and> state no_hp_bar = STOPPED \<and> \<not> running no_hp_bar \<and> workers no_hp_bar = 0
   \<and> running (start no_hp_bar) \<and> state (start no_hp_bar) = MOVING
   \<and> workers (start no_hp_bar) = 1 \<and> trace (start no_hp_bar) = [SetState MOVING]"
  by (simp add: no_hp_bar_def PokemonBot_init_def start_def set_state_def emit_def)



section \<open>The fight is the only decrement\<close>

lemma setitem_other: "k \<noteq> a \<Longrightarrow> map_of (setitem d a v) k = map_of d k"
  by (simp add: map_of_setitem)

text \<open>
  Claim C4. A call of \<open>select_fight_and_ability\<close> that returns \<open>True\<close> takes exactly one off
  the counter of the chosen ability (the argument, or the choice of \<open>get_ability_to_use\<close>
  when it is omitted) and leaves every other counter and the dictionary of maximal uses as
  they are. Nothing else in the battle policy or the automation loop writes a counter but
  the reset of the recovery: a call that returns \<open>False\<close>, \<open>select_run\<close>, \<open>detect\<close>, \<open>move\<close>,
  \<open>move_cycle\<close>, \<open>teleport_to_pokecenter\<close>, \<open>start\<close> and \<open>stop\<close> keep the configuration;
  \<open>handle_battle\<close> changes it by single decrements only; \<open>heal_pokemon_at_center\<close> is the
  reset; an iteration of the main loop is decrements followed, if it returns, by the reset.
\<close>

theorem fight_is_the_only_decrement:
  "(\<forall>ability0 s'. select_fight_and_ability ability0 s = Inr (True, s') \<longrightarrow>
      (\<exists>a v. (case ability0 of None \<Rightarrow> get_ability_to_use (config s) = Inr (Some a)
                               | Some a' \<Rightarrow> a' = a)
         \<and> remaining_uses (config s) a = Some v
         \<and> remaining_uses (config s') a = Some (v - 1)
         \<and> (\<forall>k. k \<noteq> a \<longrightarrow> remaining_uses (config s') k = remaining_uses (config s) k)
         \<and> max_pp (config s') = max_pp (config s)))
   \<and> (\<forall>ability0 s'. select_fight_and_ability ability0 s = Inr (False, s') \<longrightarrow>
         config s' = config s)
   \<and> (\<forall>b s'. select_run s = Inr (b, s') \<longrightarrow> config s' = config s)
   \<and> (\<forall>name thr b s'. detect name thr s = Inr (b, s') \<longrightarrow> config s' = config s)
   \<and> (\<forall>d n s'. move d n s = Inr s' \<longrightarrow> config s' = config s)
   \<and> (\<forall>s'. move_cycle s = Inr s' \<longrightarrow> config s' = config s)
   \<and> (\<forall>b s'. teleport_to_pokecenter s = Inr (b, s') \<longrightarrow> config s' = config s)
   \<and> config (start s) = config s \<and> config (stop s) = config s
   \<and> (\<forall>n r s'. handle_battle n s = Some (Inr (r, s')) \<longrightarrow>
         only_decrements (config s) (config s'))
   \<and> (\<forall>s'. heal_pokemon_at_center s = Inr s' \<longrightarrow>
         reset_loop [1, 2, 3, 4] (config s) = Inr (config s'))
   \<and> (\<forall>n ret s'. main_loop_body n s = Some (Inr (ret, s')) \<longrightarrow>
         (\<exists>c1. only_decrements (config s) c1
            \<and> (if ret then reset_loop [1, 2, 3, 4] c1 = Inr (config s')
                else config s' = c1)))"
proof -
  have fight: "\<forall>ability0 s'. select_fight_and_ability ability0 s = Inr (True, s') \<longrightarrow>
      (\<exists>a v. (case ability0 of None \<Rightarrow> get_ability_to_use (config s) = Inr (Some a)
                               | Some a' \<Rightarrow> a' = a)
         \<and> remaining_uses (config s) a = Some v
         \<and> remaining_uses (config s') a = Some (v - 1)
         \<and> (\<forall>k. k \<noteq> a \<longrightarrow> remaining_uses (config s') k = remaining_uses (config s) k)
         \<and> max_pp (config s') = max_pp (config s))"
  proof (intro allI impI)
    fix ability0 s'
    assume "select_fight_and_ability ability0 s = Inr (True, s')"
    from select_fight_True[OF this] obtain a v where
      ch: "case ability0 of None \<Rightarrow> get_ability_to_use (config s) = Inr (Some a)
                           | Some a' \<Rightarrow> a' = a"
      and m: "map_of (current_pp (config s)) a = Some v"
      and c: "config s' = (config s)\<lparr>current_pp := setitem (current_pp (config s)) a (v - 1)\<rparr>"
      by blast
    have "remaining_uses (config s) a = Some v" using m by (simp add: remaining_uses_def)
    moreover have "remaining_uses (config s') a = Some (v - 1)"
      using c by (simp add: remaining_uses_def map_of_setitem)
    moreover have "\<forall>k. k \<noteq> a \<longrightarrow> remaining_uses (config s') k = remaining_uses (config s) k"
      using c by (simp add: remaining_uses_def setitem_other)
    moreover have "max_pp (config s') = max_pp (config s)" using c by simp
    ultimately show "\<exists>a v. (case ability0 of
                 None \<Rightarrow> get_ability_to_use (config s) = Inr (Some a)
               | Some a' \<Rightarrow> a' = a)
         \<and> remaining_uses (config s) a = Some v
         \<and> remaining_uses (config s') a = Some (v - 1)
         \<and> (\<forall>k. k \<noteq> a \<longrightarrow> remaining_uses (config s') k = remaining_uses (config s) k)
         \<and> max_pp (config s') = max_pp (config s)"
      using ch by blast
  qed
  have nofight: "\<forall>ability0 s'. select_fight_and_ability ability0 s = Inr (False, s') \<longrightarrow>
         config s' = config s"
    by (auto dest: select_fight_False)
  have run: "\<forall>b s'. select_run s = Inr (b, s') \<longrightarrow> config s' = config s"
    by (auto dest: select_run_config)
  have det: "\<forall>name thr b s'. detect name thr s = Inr (b, s') \<longrightarrow> config s' = config s"
    by (auto dest: detect_config)
  have mv: "\<forall>d n s'. move d n s = Inr s' \<longrightarrow> config s' = config s"
    by (auto dest: move_config)
  have mc: "\<forall>s'. move_cycle s = Inr s' \<longrightarrow> config s' = config s"
    by (auto dest: move_cycle_config)
  have tp: "\<forall>b s'. teleport_to_pokecenter s = Inr (b, s') \<longrightarrow> config s' = config s"
    by (auto dest: teleport_config)
  have hb: "\<forall>n r s'. handle_battle n s = Some (Inr (r, s')) \<longrightarrow>
         only_decrements (config s) (config s')"
    by (auto dest: handle_battle_only_decrements)
  have heal: "\<forall>s'. heal_pokemon_at_center s = Inr s' \<longrightarrow>
         reset_loop [1, 2, 3, 4] (config s) = Inr (config s')"
    by (auto dest: heal_config simp del: reset_loop.simps)
  have body: "\<forall>n ret s'. main_loop_body n s = Some (Inr (ret, s')) \<longrightarrow>
         (\<exists>c1. only_decrements (config s) c1
            \<and> (if ret then reset_loop [1, 2, 3, 4] c1 = Inr (config s')
                else config s' = c1))"
    using main_loop_body_config by blast
  have ss: "config (start s) = config s \<and> config (stop s) = config s" by simp
  from fight nofight run det mv mc tp ss hb heal body show ?thesis
    by (intro conjI) (erule conjunct1 conjunct2 | assumption)+
qed

theorem fight_is_the_only_decrement_witness:
  "\<exists>s'. select_fight_and_ability None in_battle_forever = Inr (True, s')
      \<and> remaining_uses (config s') 1 = Some 19
      \<and> remaining_uses (config s') 2 = Some 20
      \<and> max_pp (config s') = [(1, 20), (2, 20), (3, 20), (4, 20)]"
proof -
  have c: "config in_battle_forever = BotConfig_init None None"
    by (simp add: in_battle_forever_def PokemonBot_init_def)
  have g: "get_ability_to_use (config in_battle_forever) = Inr (Some 1)"
    by (simp add: c BotConfig_init_def Let_def get_ability_to_use_def getitem_def)
  have r: "remaining_uses (config in_battle_forever) 1 = Some 20"
    "remaining_uses (config in_battle_forever) 2 = Some 20"
    "max_pp (config in_battle_forever) = [(1, 20), (2, 20), (3, 20), (4, 20)]"
    by (simp_all add: c BotConfig_init_def Let_def remaining_uses_def)
  from select_fight_runs[OF g] obtain s1 where
    1: "select_fight_and_ability None in_battle_forever = Inr (True, s1)" by blast
  from fight_is_the_only_decrement[of in_battle_forever]
  have "select_fight_and_ability None in_battle_forever = Inr (True, s1) \<longrightarrow>
      (\<exists>a v. (case None of None \<Rightarrow> get_ability_to_use (config in_battle_forever) = Inr (Some a)
                               | Some a' \<Rightarrow> a' = a)
         \<and> remaining_uses (config in_battle_forever) a = Some v
         \<and> remaining_uses (config s1) a = Some (v - 1)
         \<and> (\<forall>k. k \<noteq> a \<longrightarrow>
               remaining_uses (config s1) k = remaining_uses (config in_battle_forever) k)
         \<and> max_pp (config s1) = max_pp (config in_battle_forever))"
    by (elim conjE allE)
  with 1 obtain a v where
    "get_ability_to_use (config in_battle_forever) = Inr (Some a)"
    "remaining_uses (config in_battle_forever) a = Some v"
    "remaining_uses (config s1) a = Some (v - 1)"
    "\<forall>k. k \<noteq> a \<longrightarrow> remaining_uses (config s1) k = remaining_uses (config in_battle_forever) k"
    "max_pp (config s1) = max_pp (config in_battle_forever)"
    by auto
  with g r have "remaining_uses (config s1) 1 = Some 19"
    "remaining_uses (config s1) 2 = Some 20"
    "max_pp (config s1) = [(1, 20), (2, 20), (3, 20), (4, 20)]"
    by auto
  with 1 show ?thesis by blast
qed

section \<open>Running one iteration without a stop request\<close>

lemma states_of_append [simp]: "states_of (xs @ ys) = states_of xs @ states_of ys"
  by (induction xs rule: states_of.induct) auto

lemma shows_at_frame [simp]:
  "shows_at name n (s\<lparr>trace := tr\<rparr>) = shows_at name n s"
  "shows_at name n (s\<lparr>grabs := g\<rparr>) = shows_at name n s"
  "shows_at name n (s\<lparr>sleeps := sl\<rparr>) = shows_at name n s"
  "shows_at name n (s\<lparr>state := st\<rparr>) = shows_at name n s"
  "shows_at name n (s\<lparr>running := r\<rparr>) = shows_at name n s"
  "shows_at name n (s\<lparr>battles := b\<rparr>) = shows_at name n s"
  "shows_at name n (s\<lparr>runs := ru\<rparr>) = shows_at name n s"
  "shows_at name n (s\<lparr>movements := m\<rparr>) = shows_at name n s"
  by (simp_all add: shows_at_def split: option.splits sum.splits)

lemma detect_True:
  "shows_at name (grabs s) s \<Longrightarrow> thr = detection_threshold (config s) \<Longrightarrow>
   detect name thr s = Inr (True, (emit Grab s)\<lparr>grabs := Suc (grabs s)\<rparr>)"
  by (auto simp: detect_def detect_try_def shows_at_def Let_def split: option.splits sum.splits)

lemma detect_False:
  "\<not> shows_at name (grabs s) s \<Longrightarrow> thr = detection_threshold (config s) \<Longrightarrow>
   detect name thr s =
     Inr (False, if map_of (templates s) name = None then s
                 else (emit Grab s)\<lparr>grabs := Suc (grabs s)\<rparr>)"
  by (auto simp: detect_def detect_try_def shows_at_def Let_def split: option.splits sum.splits)

lemma sleep_quiet:
  "0 \<le> d \<Longrightarrow> nanoseconds_fit d \<Longrightarrow> stop_at s = None \<Longrightarrow>
   sleep d s = Inr ((emit (Sleep d) s)\<lparr>sleeps := Suc (sleeps s)\<rparr>)"
  by (simp add: sleep_def Let_def)

text \<open>
  The iteration of the main loop that meets a battle it cannot fight: the primary ability
  has no uses left and the backup is disabled.
\<close>

lemma flee_iteration:
  assumes "stop_at s = None"
    and "shows_at ''hp_bar'' (grabs s) s"
    and "shows_at ''hp_bar'' (Suc (grabs s)) s"
    and "shows_at ''battle_menu'' (Suc (Suc (grabs s))) s"
    and "remaining_uses (config s) (selected_ability (config s)) = Some 0"
    and "\<not> use_backup (config s)"
    and "\<not> use_abra_teleport (config s)"
  shows "\<exists>s'. main_loop_body (Suc n) s = Some (Inr (False, s'))
           \<and> states_of (trace s') = states_of (trace s) @
               [IN_BATTLE, if has_pp (config s) then ATTACKING else RUNNING, RUNNING, MOVING]
           \<and> state s' = MOVING
           \<and> runs s' = runs s + 1
           \<and> battles s' = battles s + 1
           \<and> config s' = config s
           \<and> running s' = running s"
  using assms
  by (simp add: main_loop_body_def is_in_battle_def is_battle_menu_visible_def detect_True
      Let_def set_state_def emit_def battle_turn_def select_fight_and_ability_def
      select_run_def press_def sleep_quiet after_battle_def end_of_iteration_def
      get_ability_to_use_def getitem_def remaining_uses_def)

lemma primary_depleted_facts:
  "stop_at primary_depleted = None"
  "state primary_depleted = MOVING"
  "running primary_depleted"
  "grabs primary_depleted = 0"
  "trace primary_depleted = [SetState MOVING]"
  "shows_at ''hp_bar'' 0 primary_depleted"
  "shows_at ''hp_bar'' (Suc 0) primary_depleted"
  "shows_at ''battle_menu'' (Suc (Suc 0)) primary_depleted"
  "remaining_uses (config primary_depleted) (selected_ability (config primary_depleted)) = Some 0"
  "\<not> use_backup (config primary_depleted)"
  "\<not> use_abra_teleport (config primary_depleted)"
  "has_pp (config primary_depleted)"
  by (simp_all add: primary_depleted_def in_battle_forever_def PokemonBot_init_def start_def
      set_state_def emit_def shows_at_def example_templates_def example_match_def
      BotConfig_init_def Let_def remaining_uses_def has_pp_def)

lemma all_depleted_facts:
  "stop_at all_depleted = None"
  "state all_depleted = MOVING"
  "grabs all_depleted = 0"
  "runs all_depleted = 0"
  "trace all_depleted = [SetState MOVING]"
  "shows_at ''hp_bar'' 0 all_depleted"
  "shows_at ''hp_bar'' (Suc 0) all_depleted"
  "shows_at ''battle_menu'' (Suc (Suc 0)) all_depleted"
  "remaining_uses (config all_depleted) (selected_ability (config all_depleted)) = Some 0"
  "\<not> use_backup (config all_depleted)"
  "\<not> use_abra_teleport (config all_depleted)"
  "\<not> has_pp (config all_depleted)"
  by (simp_all add: all_depleted_def in_battle_forever_def PokemonBot_init_def start_def
      set_state_def emit_def shows_at_def example_templates_def example_match_def
      BotConfig_init_def Let_def remaining_uses_def has_pp_def)

section \<open>The flee scenario\<close>

text \<open>
  Claim C2 as stated fails: the bot is started, the detector reports the battle and the
  menu, the primary ability has no uses left and the backup is disabled, and the state
  goes through \<open>ATTACKING\<close>, because abilities 2 to 4 still have uses and the main loop
  looks at every counter.
\<close>

theorem flee_scenario_counterexample:
  "state primary_depleted = MOVING \<and> running primary_depleted
   \<and> shows_at ''hp_bar'' 0 primary_depleted
   \<and> shows_at ''hp_bar'' 1 primary_depleted
   \<and> shows_at ''battle_menu'' 2 primary_depleted
   \<and> remaining_uses (config primary_depleted) (selected_ability (config primary_depleted))
       = Some 0
   \<and> \<not> use_backup (config primary_depleted)
   \<and> \<not> use_abra_teleport (config primary_depleted)
   \<and> (\<exists>s'. main_loop_body 1 primary_depleted = Some (Inr (False, s'))
         \<and> states_of (trace s') = [MOVING, IN_BATTLE, ATTACKING, RUNNING, MOVING])"
proof -
  from flee_iteration[of primary_depleted 0] primary_depleted_facts
  have "\<exists>s'. main_loop_body 1 primary_depleted = Some (Inr (False, s'))
         \<and> states_of (trace s') = [MOVING, IN_BATTLE, ATTACKING, RUNNING, MOVING]"
    by auto
  with primary_depleted_facts show ?thesis by (simp add: numeral_2_eq_2)
qed

text \<open>
  Claim C2, amended. With the battle and the menu detected, the primary ability at 0 uses,
  the backup and the escalation disabled and no stop request, the iteration of the main
  loop enters \<open>IN_BATTLE\<close>, flees in the first turn, counts exactly one flee and one battle
  and ends in \<open>MOVING\<close> with the configuration unchanged. Between \<open>IN_BATTLE\<close> and the
  flee the state is \<open>RUNNING\<close> when no ability at all has uses left, and \<open>ATTACKING\<close> when
  some ability (even one that is not enabled) still has uses.
\<close>

theorem flee_scenario:
  assumes "stop_at s = None"
    and "shows_at ''hp_bar'' (grabs s) s"
    and "shows_at ''hp_bar'' (Suc (grabs s)) s"
    and "shows_at ''battle_menu'' (Suc (Suc (grabs s))) s"
    and "remaining_uses (config s) (selected_ability (config s)) = Some 0"
    and "\<not> use_backup (config s)"
    and "\<not> use_abra_teleport (config s)"
  shows "\<exists>s'. main_loop_body (Suc n) s = Some (Inr (False, s'))
           \<and> states_of (trace s') = states_of (trace s) @
               [IN_BATTLE, if has_pp (config s) then ATTACKING else RUNNING, RUNNING, MOVING]
           \<and> state s' = MOVING
           \<and> runs s' = runs s + 1
           \<and> battles s' = battles s + 1
           \<and> config s' = config s
           \<and> running s' = running s"
  using assms by (rule flee_iteration)

theorem flee_scenario_witness:
  "stop_at all_depleted = None
   \<and> shows_at ''hp_bar'' (grabs all_depleted) all_depleted
   \<and> shows_at ''hp_bar'' (Suc (grabs all_depleted)) all_depleted
   \<and> shows_at ''battle_menu'' (Suc (Suc (grabs all_depleted))) all_depleted
   \<and> remaining_uses (config all_depleted) (selected_ability (config all_depleted)) = Some 0
   \<and> \<not> use_backup (config all_depleted)
   \<and> \<not> use_abra_teleport (config all_depleted)
   \<and> (\<exists>s'. main_loop_body 1 all_depleted = Some (Inr (False, s'))
         \<and> states_of (trace s') = [MOVING, IN_BATTLE, RUNNING, RUNNING, MOVING]
         \<and> state s' = MOVING \<and> runs s' = 1)"
proof -
  from flee_scenario[of all_depleted 0] all_depleted_facts
  have "\<exists>s'. main_loop_body 1 all_depleted = Some (Inr (False, s'))
         \<and> states_of (trace s') = [MOVING, IN_BATTLE, RUNNING, RUNNING, MOVING]
         \<and> state s' = MOVING \<and> runs s' = 1"
    by auto
  with all_depleted_facts show ?thesis by simp
qed

section \<open>Recovery after a flee\<close>

lemma recovery_abandoned:
  assumes "use_abra_teleport (config s)" and "stop_at s = None"
    and "shows_at ''hp_bar'' (grabs s) s"
  shows "\<exists>s'. after_battle ''run'' s = Inr (False, s')
           \<and> state s' = MOVING \<and> running s' = running s
           \<and> config s' = config s \<and> runs s' = runs s + 1
           \<and> states_of (trace s') = states_of (trace s) @ [RUNNING, MOVING]
           \<and> inputs_of (trace s') = inputs_of (trace s) @ [Sleep 2, Sleep 0.1]"
  using assms
  by (simp add: after_battle_def Let_def set_state_def emit_def sleep_quiet
      teleport_to_pokecenter_def is_in_battle_def detect_True end_of_iteration_def)

lemma recovery_performed:
  assumes "use_abra_teleport (config s)" and "stop_at s = None"
    and "\<not> shows_at ''hp_bar'' (grabs s) s"
    and "list_all (\<lambda>i. map_of (max_pp (config s)) i \<noteq> None) [1, 2, 3, 4]"
  shows "\<exists>s'. after_battle ''run'' s = Inr (True, s')
           \<and> state s' = STOPPED \<and> \<not> running s'
           \<and> list_all (\<lambda>i. remaining_uses (config s') i = max_uses (config s') i
                            \<and> max_uses (config s') i \<noteq> None) [1, 2, 3, 4]
           \<and> max_pp (config s') = max_pp (config s)
           \<and> runs s' = runs s + 1
           \<and> states_of (trace s') =
               states_of (trace s) @ [RUNNING, TELEPORTING, HEALING, STOPPED]
           \<and> inputs_of (trace s') = inputs_of (trace s) @
               [Sleep 2, Press ''9'', Sleep 6, Sleep 2,
                Sleep 0.8, Press ''z'', Sleep 0.8, Press ''z'', Sleep 0.8, Press ''z'',
                Sleep 0.8, Press ''z'', Sleep 0.8, Press ''z'', Sleep 0.8]"
proof -
  from reset_loop_succeeds[OF assms(4)] obtain c' where
    r: "reset_loop [1, 2, 3, 4] (config s) = Inr c'" by blast
  have m: "max_pp c' = max_pp (config s)" using r by (rule reset_loop_max_pp)
  have p: "list_all (\<lambda>i. remaining_uses c' i = max_uses c' i \<and> max_uses c' i \<noteq> None)
             [1, 2, 3, 4]"
    using reset_loop_restores[OF r] by simp
  show ?thesis
  proof (cases "map_of (templates s) ''hp_bar'' = None")
    case True
    with assms(1,2,3) r m p show ?thesis
      by (simp add: after_battle_def Let_def set_state_def emit_def sleep_quiet
          teleport_to_pokecenter_def is_in_battle_def detect_False ok_def press_def
          heal_pokemon_at_center_def reset_all_pp_def stop_def
          del: reset_loop.simps)
  next
    case False
    with assms(1,2,3) r m p show ?thesis
      by (simp add: after_battle_def Let_def set_state_def emit_def sleep_quiet
          teleport_to_pokecenter_def is_in_battle_def detect_False ok_def press_def
          heal_pokemon_at_center_def reset_all_pp_def stop_def
          del: reset_loop.simps)
  qed
qed

text \<open>
  Claim C6. With the escalation enabled and no stop request, after a flee (\<open>handle_battle\<close>
  returned \<open>"run"\<close>): if the travel check still sees the battle, nothing is sent to the
  game, the configuration is unchanged and the state falls back to \<open>MOVING\<close>, the loop going
  on; otherwise the bot travels and restores, every ability 1 to 4 has its remaining uses
  equal to its maximal uses, the state is \<open>STOPPED\<close>, the running flag is false and
  \<open>main_loop\<close> returns.
\<close>

theorem recovery_after_flee:
  assumes "use_abra_teleport (config s)" and "stop_at s = None"
  shows "(shows_at ''hp_bar'' (grabs s) s \<longrightarrow>
           (\<exists>s'. after_battle ''run'' s = Inr (False, s')
              \<and> state s' = MOVING \<and> running s' = running s
              \<and> config s' = config s \<and> runs s' = runs s + 1
              \<and> states_of (trace s') = states_of (trace s) @ [RUNNING, MOVING]
              \<and> inputs_of (trace s') = inputs_of (trace s) @ [Sleep 2, Sleep 0.1]))
       \<and> (\<not> shows_at ''hp_bar'' (grabs s) s
            \<and> list_all (\<lambda>i. map_of (max_pp (config s)) i \<noteq> None) [1, 2, 3, 4] \<longrightarrow>
           (\<exists>s'. after_battle ''run'' s = Inr (True, s')
              \<and> state s' = STOPPED \<and> \<not> running s'
              \<and> list_all (\<lambda>i. remaining_uses (config s') i = max_uses (config s') i
                               \<and> max_uses (config s') i \<noteq> None) [1, 2, 3, 4]
              \<and> max_pp (config s') = max_pp (config s)
              \<and> runs s' = runs s + 1
              \<and> states_of (trace s') =
                  states_of (trace s) @ [RUNNING, TELEPORTING, HEALING, STOPPED]
              \<and> inputs_of (trace s') = inputs_of (trace s) @
                  [Sleep 2, Press ''9'', Sleep 6, Sleep 2,
                   Sleep 0.8, Press ''z'', Sleep 0.8, Press ''z'', Sleep 0.8, Press ''z'',
                   Sleep 0.8, Press ''z'', Sleep 0.8, Press ''z'', Sleep 0.8]))"
  using recovery_abandoned[OF assms] recovery_performed[OF assms] by blast

lemma fled_in_battle_facts:
  "use_abra_teleport (config fled_in_battle)"
  "stop_at fled_in_battle = None"
  "grabs fled_in_battle = 0"
  "shows_at ''hp_bar'' 0 fled_in_battle"
  by (simp_all add: fled_in_battle_def in_battle_forever_def PokemonBot_init_def start_def
      set_state_def emit_def shows_at_def example_templates_def example_match_def
      BotConfig_init_def Let_def)

lemma fled_clear_facts:
  "use_abra_teleport (config fled_clear)"
  "stop_at fled_clear = None"
  "grabs fled_clear = 0"
  "\<not> shows_at ''hp_bar'' 0 fled_clear"
  "list_all (\<lambda>i. map_of (max_pp (config fled_clear)) i \<noteq> None) [1, 2, 3, 4]"
  "max_pp (config fled_clear) = [(1, 20), (2, 20), (3, 20), (4, 20)]"
  "remaining_uses (config fled_clear) 1 = Some 0"
  by (simp_all add: fled_clear_def PokemonBot_init_def start_def
      set_state_def emit_def shows_at_def example_templates_def example_match_def
      BotConfig_init_def Let_def remaining_uses_def)

theorem recovery_after_flee_witness:
  "use_abra_teleport (config fled_in_battle) \<and> stop_at fled_in_battle = None
   \<and> shows_at ''hp_bar'' (grabs fled_in_battle) fled_in_battle
   \<and> (\<exists>s'. after_battle ''run'' fled_in_battle = Inr (False, s') \<and> state s' = MOVING)
   \<and> use_abra_teleport (config fled_clear) \<and> stop_at fled_clear = None
   \<and> \<not> shows_at ''hp_bar'' (grabs fled_clear) fled_clear
   \<and> remaining_uses (config fled_clear) 1 = Some 0
   \<and> (\<exists>s'. after_battle ''run'' fled_clear = Inr (True, s')
         \<and> state s' = STOPPED \<and> \<not> running s'
         \<and> remaining_uses (config s') 1 = Some 20 \<and> remaining_uses (config s') 2 = Some 20
         \<and> remaining_uses (config s') 3 = Some 20 \<and> remaining_uses (config s') 4 = Some 20)"
proof -
  from recovery_after_flee[OF fled_in_battle_facts(1,2)] fled_in_battle_facts
  have a: "\<exists>s'. after_battle ''run'' fled_in_battle = Inr (False, s') \<and> state s' = MOVING"
    by auto
  from recovery_after_flee[OF fled_clear_facts(1,2)] fled_clear_facts
  have "\<exists>s'. after_battle ''run'' fled_clear = Inr (True, s')
         \<and> state s' = STOPPED \<and> \<not> running s'
         \<and> list_all (\<lambda>i. remaining_uses (config s') i = max_uses (config s') i
                               \<and> max_uses (config s') i \<noteq> None) [1, 2, 3, 4]
         \<and> max_pp (config s') = [(1, 20), (2, 20), (3, 20), (4, 20)]"
    by auto
  then have b: "\<exists>s'. after_battle ''run'' fled_clear = Inr (True, s')
         \<and> state s' = STOPPED \<and> \<not> running s'
         \<and> remaining_uses (config s') 1 = Some 20 \<and> remaining_uses (config s') 2 = Some 20
         \<and> remaining_uses (config s') 3 = Some 20 \<and> remaining_uses (config s') 4 = Some 20"
    by (auto simp: max_uses_def)
  from a b fled_in_battle_facts fled_clear_facts show ?thesis by simp
qed

section \<open>Where the stop flag is read\<close>

text \<open>The update of the running flag moved behind the updates the worker makes.\<close>

lemma running_update_last:
  "trace_update f (running_update g s) = running_update g (trace_update f s)"
  "sleeps_update fn (running_update g s) = running_update g (sleeps_update fn s)"
  "grabs_update fn (running_update g s) = running_update g (grabs_update fn s)"
  "state_update fs (running_update g s) = running_update g (state_update fs s)"
  "config_update fc (running_update g s) = running_update g (config_update fc s)"
  by (cases s; simp)+

lemma agree_refl [simp]: "agree s s"
  unfolding agree_def by (rule exI[of _ "running s"]) simp

lemma agree_update: "agree s (s\<lparr>running := r\<rparr>)"
  unfolding agree_def by blast

lemma agree_config: "agree s t \<Longrightarrow> config t = config s"
  by (auto simp: agree_def)

lemma ignores_flagD:
  "ignores_flag a \<Longrightarrow> agree s t \<Longrightarrow> rel_sum (=) agree (a s) (a t)"
  by (simp add: ignores_flag_def)

lemma ignores_flag_valD:
  "ignores_flag_val a \<Longrightarrow> agree s t \<Longrightarrow> rel_sum (=) (rel_prod (=) agree) (a s) (a t)"
  by (simp add: ignores_flag_val_def)

lemma ignores_flag_press [simp]: "ignores_flag (press k)"
  by (auto simp: ignores_flag_def agree_def press_def emit_def running_update_last)

lemma ignores_flag_sleep [simp]: "ignores_flag (sleep d)"
  by (auto simp: ignores_flag_def agree_def sleep_def emit_def Let_def stop_def set_state_def
      running_update_last)

lemma ignores_flag_deduct_pp [simp]: "ignores_flag (deduct_pp a)"
  by (auto simp: ignores_flag_def agree_def deduct_pp_def running_update_last
      split: sum.splits)

lemma ignores_flag_ability_script [simp]: "list_all ignores_flag (ability_script a)"
  by (simp add: ability_script_def)

lemma ignores_flag_seq: "list_all ignores_flag as \<Longrightarrow> ignores_flag (seq as)"
proof (induction as)
  case Nil
  then show ?case by (simp add: ignores_flag_def)
next
  case (Cons a as)
  then have a: "ignores_flag a" and as: "ignores_flag (seq as)" by simp_all
  show ?case
    unfolding ignores_flag_def
  proof (intro allI impI)
    fix s t :: "'a sys"
    assume "agree s t"
    from ignores_flagD[OF a this] show "rel_sum (=) agree (seq (a # as) s) (seq (a # as) t)"
      by (cases "a s"; cases "a t") (auto dest: ignores_flagD[OF as])
  qed
qed

lemma ignores_flag_detect [simp]: "ignores_flag_val (detect name thr)"
  by (auto simp: ignores_flag_val_def agree_def detect_def detect_try_def emit_def Let_def
      running_update_last split: option.splits sum.splits)

lemma ignores_flag_select_run [simp]: "ignores_flag_val select_run"
proof -
  have "ignores_flag (seq [press ''up'', sleep 0.1, press ''down'', sleep 0.1,
                press ''right'', sleep 0.1, press ''z'', sleep 0.3])"
    by (rule ignores_flag_seq) simp
  then show ?thesis
    unfolding ignores_flag_val_def ignores_flag_def select_run_def
    by (auto simp del: seq.simps split: sum.splits elim!: rel_sum.cases) fastforce+
qed

lemma rel_valE:
  assumes "rel_sum (=) (rel_prod (=) agree) x y"
  obtains (raises) e where "x = Inl e" "y = Inl e"
  | (returns) v s1 t1 where "x = Inr (v, s1)" "y = Inr (v, t1)" "agree s1 t1"
  using assms by (cases x; cases y) auto

lemma rel_stE:
  assumes "rel_sum (=) agree x y"
  obtains (raises) e where "x = Inl e" "y = Inl e"
  | (returns) s1 t1 where "x = Inr s1" "y = Inr t1" "agree s1 t1"
  using assms by (cases x; cases y) auto

lemma ignores_flag_fight_script [simp]: "ignores_flag (seq (fight_script a))"
  by (rule ignores_flag_seq) (simp add: fight_script_def)

lemma ignores_flag_select_fight [simp]: "ignores_flag_val (select_fight_and_ability ability0)"
  unfolding ignores_flag_val_def
proof (intro allI impI)
  fix s t :: "'a sys"
  assume a: "agree s t"
  then have "config t = config s" by (rule agree_config)
  then have c: "(case ability0 of None \<Rightarrow> get_ability_to_use (config t)
                  | Some a \<Rightarrow> Inr (Some a))
      = (case ability0 of None \<Rightarrow> get_ability_to_use (config s) | Some a \<Rightarrow> Inr (Some a))"
    by (cases ability0) simp_all
  show "rel_sum (=) (rel_prod (=) agree)
          (select_fight_and_ability ability0 s) (select_fight_and_ability ability0 t)"
  proof (cases "case ability0 of None \<Rightarrow> get_ability_to_use (config s)
                               | Some a \<Rightarrow> Inr (Some a)")
    case (Inl e)
    then show ?thesis by (simp add: select_fight_and_ability_def c)
  next
    case (Inr choice)
    show ?thesis
    proof (cases choice)
      case None
      with Inr a show ?thesis by (simp add: select_fight_and_ability_def c)
    next
      case (Some ability)
      from ignores_flagD[OF ignores_flag_fight_script a, of ability]
      show ?thesis
        by (cases rule: rel_stE) (simp_all add: select_fight_and_ability_def c Inr Some)
    qed
  qed
qed

lemma ignores_flag_battle_turn [simp]: "ignores_flag_val battle_turn"
  unfolding ignores_flag_val_def
proof (intro allI impI)
  fix s t :: "'a sys"
  assume a: "agree s t"
  from ignores_flag_valD[OF ignores_flag_select_fight a, of None]
  show "rel_sum (=) (rel_prod (=) agree) (battle_turn s) (battle_turn t)"
  proof (cases rule: rel_valE)
    case (raises e)
    then show ?thesis by (simp add: battle_turn_def)
  next
    case (returns fought s1 t1)
    show ?thesis
    proof (cases fought)
      case True
      with returns show ?thesis by (simp add: battle_turn_def)
    next
      case False
      from ignores_flag_valD[OF ignores_flag_select_run returns(3)]
      show ?thesis
        by (cases rule: rel_valE) (simp_all add: battle_turn_def returns False)
    qed
  qed
qed

text \<open>
  The battle loop does not read the flag: entered with or without it, it makes the same
  captures and inputs, raises the same exception or returns the same result, or reaches
  the bound of the model in both runs.
\<close>

lemma handle_battle_ignores_flag:
  "agree s t \<Longrightarrow>
   rel_option (rel_sum (=) (rel_prod (=) agree)) (handle_battle n s) (handle_battle n t)"
proof (induction n arbitrary: s t)
  case 0
  then show ?case by simp
next
  case (Suc n)
  have c: "config t = config s" using Suc.prems by (rule agree_config)
  from ignores_flag_valD[OF ignores_flag_detect Suc.prems,
      of "''hp_bar''" "detection_threshold (config s)"]
  have "rel_sum (=) (rel_prod (=) agree)
          (is_in_battle (detection_threshold (config s)) s)
          (is_in_battle (detection_threshold (config t)) t)"
    by (simp add: is_in_battle_def c)
  then show ?case
  proof (cases rule: rel_valE)
    case (raises e)
    then show ?thesis by simp
  next
    case (returns in_battle s1 t1)
    note 1 = returns
    have c1: "config t1 = config s1" using 1(3) by (rule agree_config)
    show ?thesis
    proof (cases in_battle)
      case False
      with 1 show ?thesis by simp
    next
      case True
      note b = True
      from ignores_flag_valD[OF ignores_flag_detect 1(3),
          of "''battle_menu''" "detection_threshold (config s1)"]
      have "rel_sum (=) (rel_prod (=) agree)
              (is_battle_menu_visible (detection_threshold (config s1)) s1)
              (is_battle_menu_visible (detection_threshold (config t1)) t1)"
        by (simp add: is_battle_menu_visible_def c1)
      then show ?thesis
      proof (cases rule: rel_valE)
        case (raises e)
        with 1 b show ?thesis by simp
      next
        case (returns menu s2 t2)
        note 2 = returns
        have "rel_sum (=) (rel_prod (=) agree)
                (if menu then battle_turn s2 else Inr (False, s2))
                (if menu then battle_turn t2 else Inr (False, t2))"
          using ignores_flag_valD[OF ignores_flag_battle_turn 2(3)] 2(3) by simp
        then show ?thesis
        proof (cases rule: rel_valE)
          case (raises e)
          with 1 b 2 show ?thesis by simp
        next
          case (returns returned s3 t3)
          note 3 = returns
          have c3: "config t3 = config s3" using 3(3) by (rule agree_config)
          show ?thesis
          proof (cases returned)
            case True
            with 1 b 2 3 show ?thesis by simp
          next
            case False
            note nr = False
            from ignores_flagD[OF ignores_flag_sleep 3(3), of "attack_wait_time (config s3)"]
            have "rel_sum (=) agree (sleep (attack_wait_time (config s3)) s3)
                    (sleep (attack_wait_time (config t3)) t3)"
              by (simp add: c3)
            then show ?thesis
            proof (cases rule: rel_stE)
              case (raises e)
              with 1 b 2 3 nr show ?thesis by simp
            next
              case (returns s4 t4)
              note 4 = returns
              have c4: "config t4 = config s4" using 4(3) by (rule agree_config)
              from ignores_flag_valD[OF ignores_flag_detect 4(3),
                  of "''hp_bar''" "detection_threshold (config s4)"]
              have "rel_sum (=) (rel_prod (=) agree)
                      (is_in_battle (detection_threshold (config s4)) s4)
                      (is_in_battle (detection_threshold (config t4)) t4)"
                by (simp add: is_in_battle_def c4)
              then show ?thesis
              proof (cases rule: rel_valE)
                case (raises e)
                with 1 b 2 3 nr 4 show ?thesis by simp
              next
                case (returns still s5 t5)
                note 5 = returns
                show ?thesis
                proof (cases still)
                  case False
                  with 1 b 2 3 nr 4 5 show ?thesis by simp
                next
                  case True
                  from Suc.IH[OF 5(3)] 1 b 2 3 nr 4 5 True show ?thesis by simp
                qed
              qed
            qed
          qed
        qed
      qed
    qed
  qed
qed

text \<open>
  Claim C8 as stated fails. The bot is running in a battle; the control surface calls
  \<open>stop()\<close> while the worker waits after its first attack. The worker does not exit: it
  polls the detector three more times, plays a second fight script (the counter of
  ability 1 goes to 18), waits, polls again, overwrites the state \<open>STOPPED\<close> with
  \<open>MOVING\<close>, and only then meets the test of the outer loop.
\<close>

theorem stop_latency_counterexample:
  "running stopped_mid_battle \<and> stop_at stopped_mid_battle = Some 7
   \<and> (case main_loop 2 stopped_mid_battle of
        Some (Inr s') \<Rightarrow>
          \<not> running s' \<and> state s' = MOVING
          \<and> remaining_uses (config s') 1 = Some 18
          \<and> dropWhile (\<lambda>e. e \<noteq> CtlStop) (trace s') =
              [CtlStop, SetState STOPPED, Grab, Grab, Grab,
               Press ''up'', Sleep 0.1, Press ''z'', Sleep 0.3, Press ''up'', Sleep 0.1,
               Press ''up'', Sleep 0.1, Press ''left'', Sleep 0.1, Press ''z'', Sleep 0.3,
               Sleep 11, Grab, SetState MOVING, Sleep 0.1]
      | _ \<Rightarrow> False)"
  by code_simp

text \<open>
  Claim C8, amended. The worker reads the stop flag at one place, the test of the outer
  loop: when the flag is false there, \<open>main_loop\<close> returns at once, without a capture, an
  input or a change of state. The battle loop (with its action scripts) does not read the
  flag: whatever the flag is when the loop is entered, the loop does the same, so that a
  stop requested during a battle takes effect only when the battle loop has returned.
\<close>

theorem stop_flag_read_at_loop_top_only:
  "(\<not> running s \<longrightarrow> main_loop_iter (Suc n) s = Some (Inr s))
   \<and> rel_option (rel_sum (=) (rel_prod (=) agree))
        (handle_battle m s) (handle_battle m (s\<lparr>running := r\<rparr>))"
  using handle_battle_ignores_flag[OF agree_update] by simp

theorem stop_flag_read_at_loop_top_only_witness:
  "\<not> running in_battle_forever
   \<and> main_loop_iter 1 in_battle_forever = Some (Inr in_battle_forever)"
proof -
  have "\<not> running in_battle_forever"
    by (simp add: in_battle_forever_def PokemonBot_init_def)
  with stop_flag_read_at_loop_top_only[of in_battle_forever 0] show ?thesis by simp
qed

end
